theory Spec2Isabelle
  imports Complex_Main "HOL-Library.Multiset" "HOL-Library.Word"
begin

section \<open>The allocation engine of \<open>process_demand.py\<close>\<close>

text \<open>
  A shallow embedding of the class \<open>NetworkProcessor\<close>. Every method takes the
  processor (Python's \<open>self\<close>) first and returns the processor it leaves behind; a method
  that can raise returns its outcome (\<open>Inl\<close> the exception, \<open>Inr\<close> the returned value)
  together with the processor as it is at that moment, since an exception does not undo
  the assignments made before it.

  The substrate is the two-dimensional NumPy array that \<open>main.py\<close> builds from Python
  integers, of element type \<open>int64\<close>: it is modelled as the list of its rows, every
  entry a 64-bit word read as a signed number (\<open>sint\<close>). Demands hold Python integers,
  which are unbounded. Comparing an entry with a Python integer is exact; subtracting a
  Python integer from an entry wraps around in 64 bits, and raises \<open>OverflowError\<close>
  when the integer itself does not fit in 64 bits. The acceptance ratio, a Python float, is modelled by the exact quotient of the
  two counts as a real number. The console output of \<open>process_all_demands\<close> is not
  modelled.
\<close>

subsection \<open>Data\<close>

datatype py_error = IndexError | TypeError | AttributeError | OverflowError

type_synonym ndarray = "64 word list list"

text \<open>The dictionary \<open>{'id': ..., 'path': ..., 'bandwidth': ...}\<close> built by \<open>add_demand\<close>.\<close>

record demand =
  demand_id :: int
  path :: "int list"
  bandwidth :: "int list"

text \<open>
  The attributes of a \<open>NetworkProcessor\<close>. \<open>substrate_network\<close> starts as Python's
  \<open>None\<close>. \<open>original_substrate\<close> is not assigned by the constructor: the outer
  \<open>None\<close> stands for the attribute that does not exist yet (reading it raises
  \<open>AttributeError\<close>), \<open>Some None\<close> for the Python value \<open>None\<close> that \<open>reset\<close>
  tests for, \<open>Some (Some m)\<close> for an array.
\<close>

record processor =
  substrate_network :: "ndarray option"
  original_substrate :: "ndarray option option"
  demands :: "demand list"
  accepted_demands :: "demand list"
  rejected_demands :: "demand list"
  allocations :: "int \<rightharpoonup> int list"

subsection \<open>Python and NumPy primitives\<close>

text \<open>\<open>xs[i]\<close> on a Python list, for an index that is not negative.\<close>

definition py_index :: "'a list \<Rightarrow> nat \<Rightarrow> py_error + 'a" where
  "py_index xs i = (if i < length xs then Inr (xs ! i) else Inl IndexError)"

text \<open>
  An index along an axis of size \<open>n\<close> of a NumPy array: a negative index counts from the
  end, anything outside \<open>-n .. n-1\<close> raises \<open>IndexError\<close>.
\<close>

definition np_axis :: "nat \<Rightarrow> int \<Rightarrow> py_error + nat" where
  "np_axis n j =
     (if 0 \<le> j \<and> j < int n then Inr (nat j)
      else if - int n \<le> j \<and> j < 0 then Inr (nat (j + int n))
      else Inl IndexError)"

text \<open>The row and column that \<open>a[i, j]\<close> refers to.\<close>

definition np_locate :: "ndarray \<Rightarrow> int \<Rightarrow> int \<Rightarrow> py_error + (nat \<times> nat)" where
  "np_locate m i j =
     (case np_axis (length m) i of
        Inl e \<Rightarrow> Inl e
      | Inr r \<Rightarrow>
          (case np_axis (length (m ! r)) j of
             Inl e \<Rightarrow> Inl e
           | Inr c \<Rightarrow> Inr (r, c)))"

text \<open>Reading \<open>a[i, j]\<close>; subscripting \<open>None\<close> raises \<open>TypeError\<close>.\<close>

definition np_get :: "ndarray option \<Rightarrow> int \<Rightarrow> int \<Rightarrow> py_error + 64 word" where
  "np_get a i j =
     (case a of
        None \<Rightarrow> Inl TypeError
      | Some m \<Rightarrow>
          (case np_locate m i j of
             Inl e \<Rightarrow> Inl e
           | Inr (r, c) \<Rightarrow> Inr (m ! r ! c)))"

text \<open>The Python integers that an \<open>int64\<close> can hold.\<close>

definition in_int64 :: "int \<Rightarrow> bool" where
  "in_int64 x \<longleftrightarrow> - (2 ^ 63) \<le> x \<and> x < 2 ^ 63"

text \<open>
  \<open>a[i, j] -= x\<close> for a Python integer \<open>x\<close>: the entry is read, \<open>x\<close> is subtracted
  from it as an \<open>int64\<close> (the difference wraps around; an \<open>x\<close> outside the range of
  \<open>int64\<close> raises \<open>OverflowError\<close>, as NumPy 2 does for a Python integer that does not
  fit the type of the other operand), and the result is stored in place.
\<close>

definition np_isub :: "ndarray option \<Rightarrow> int \<Rightarrow> int \<Rightarrow> int \<Rightarrow> py_error option \<times> ndarray option" where
  "np_isub a i j x =
     (case a of
        None \<Rightarrow> (Some TypeError, None)
      | Some m \<Rightarrow>
          (case np_locate m i j of
             Inl e \<Rightarrow> (Some e, Some m)
           | Inr (r, c) \<Rightarrow>
               if in_int64 x
               then (None, Some (m[r := (m ! r)[c := m ! r ! c - word_of_int x]]))
               else (Some OverflowError, Some m)))"

text \<open>
  \<open>itertools.permutations(pool, r)\<close>, as its documentation defines it: the tuples of
  \<open>product(range(n), repeat=r)\<close> without a repeated position, in the order \<open>product\<close>
  emits them (lexicographic in the positions), each read off the pool.
\<close>

definition permutations :: "'a list \<Rightarrow> nat \<Rightarrow> 'a list list" where
  "permutations pool r =
     map (map (\<lambda>i. pool ! i))
       (filter distinct (product_lists (replicate r [0..<length pool])))"

subsection \<open>The methods of \<open>NetworkProcessor\<close>\<close>

definition init :: processor where
  "init = \<lparr>substrate_network = None, original_substrate = None, demands = [],
            accepted_demands = [], rejected_demands = [], allocations = Map.empty\<rparr>"

text \<open>Both attributes receive a copy of their own of the array; nothing is checked.\<close>

definition set_substrate_network :: "processor \<Rightarrow> ndarray \<Rightarrow> (py_error + unit) \<times> processor" where
  "set_substrate_network p adjacency_matrix =
     (Inr (), p\<lparr>substrate_network := Some adjacency_matrix,
                original_substrate := Some (Some adjacency_matrix)\<rparr>)"

definition add_demand :: "processor \<Rightarrow> int \<Rightarrow> int list \<Rightarrow> int list \<Rightarrow> processor" where
  "add_demand p did demand_path bandwidth_requirements =
     p\<lparr>demands := demands p @
          [\<lparr>demand_id = did, path = demand_path, bandwidth = bandwidth_requirements\<rparr>]\<rparr>"

text \<open>
  The four collections are emptied first; the read of \<open>original_substrate\<close> comes after
  and raises when \<open>set_substrate_network\<close> was never called.
\<close>

definition reset :: "processor \<Rightarrow> (py_error + unit) \<times> processor" where
  "reset p =
     (let p1 = p\<lparr>demands := [], accepted_demands := [], rejected_demands := [],
                 allocations := Map.empty\<rparr>
      in case original_substrate p1 of
           None \<Rightarrow> (Inl AttributeError, p1)
         | Some None \<Rightarrow> (Inr (), p1)
         | Some (Some m) \<Rightarrow> (Inr (), p1\<lparr>substrate_network := Some m\<rparr>))"

text \<open>
  What one round of the loops over \<open>range(len(demand['path']) - 1)\<close> reads before it
  touches the array: \<open>mapping[i] - 1\<close>, \<open>mapping[i + 1] - 1\<close> and
  \<open>demand['bandwidth'][i]\<close>, in this order.
\<close>

definition arc :: "demand \<Rightarrow> int list \<Rightarrow> nat \<Rightarrow> py_error + (int \<times> int \<times> int)" where
  "arc d mapping i =
     (case py_index mapping i of
        Inl e \<Rightarrow> Inl e
      | Inr a \<Rightarrow>
          (case py_index mapping (i + 1) of
             Inl e \<Rightarrow> Inl e
           | Inr b \<Rightarrow>
               (case py_index (bandwidth d) i of
                  Inl e \<Rightarrow> Inl e
                | Inr required_bandwidth \<Rightarrow> Inr (a - 1, b - 1, required_bandwidth))))"

text \<open>
  The bandwidth check, written twice in the source with the same body: the inner loop of
  \<open>find_all_possible_allocations\<close> (\<open>valid = False; break\<close>) and the first loop of
  \<open>allocate_demand\<close> (\<open>return False\<close>). It stops at the first arc that is too small.
\<close>

fun bandwidth_check :: "ndarray option \<Rightarrow> demand \<Rightarrow> int list \<Rightarrow> nat list \<Rightarrow> py_error + bool" where
  "bandwidth_check net d mapping [] = Inr True"
| "bandwidth_check net d mapping (i # rest) =
     (case arc d mapping i of
        Inl e \<Rightarrow> Inl e
      | Inr (src_node, dst_node, required_bandwidth) \<Rightarrow>
          (case np_get net src_node dst_node of
             Inl e \<Rightarrow> Inl e
           | Inr available \<Rightarrow>
               if sint available < required_bandwidth then Inr False
               else bandwidth_check net d mapping rest))"

text \<open>The loop over \<open>all_mappings\<close> that collects \<open>valid_mappings\<close>.\<close>

fun filter_mappings :: "ndarray option \<Rightarrow> demand \<Rightarrow> int list list \<Rightarrow> int list list \<Rightarrow> py_error + int list list" where
  "filter_mappings net d valid_mappings [] = Inr valid_mappings"
| "filter_mappings net d valid_mappings (mapping # rest) =
     (case bandwidth_check net d mapping [0..<length (path d) - 1] of
        Inl e \<Rightarrow> Inl e
      | Inr valid \<Rightarrow>
          filter_mappings net d
            (if valid then valid_mappings @ [mapping] else valid_mappings) rest)"

definition find_all_possible_allocations :: "processor \<Rightarrow> demand \<Rightarrow> py_error + int list list" where
  "find_all_possible_allocations p d =
     (let demand_nodes = length (path d)
      in case substrate_network p of
           None \<Rightarrow> Inl AttributeError
         | Some net \<Rightarrow>
             (let substrate_nodes = length net;
                  all_mappings = permutations (map int [1..<substrate_nodes + 1]) demand_nodes
              in filter_mappings (Some net) d [] all_mappings))"

text \<open>The second loop of \<open>allocate_demand\<close>, which takes the bandwidth off the array.\<close>

fun assign_resources :: "ndarray option \<Rightarrow> demand \<Rightarrow> int list \<Rightarrow> nat list \<Rightarrow> py_error option \<times> ndarray option" where
  "assign_resources net d mapping [] = (None, net)"
| "assign_resources net d mapping (i # rest) =
     (case arc d mapping i of
        Inl e \<Rightarrow> (Some e, net)
      | Inr (src_node, dst_node, required_bandwidth) \<Rightarrow>
          (case np_isub net src_node dst_node required_bandwidth of
             (Some e, net') \<Rightarrow> (Some e, net')
           | (None, net') \<Rightarrow> assign_resources net' d mapping rest))"

definition allocate_demand :: "processor \<Rightarrow> demand \<Rightarrow> int list \<Rightarrow> (py_error + bool) \<times> processor" where
  "allocate_demand p d mapping =
     (let arcs = [0..<length (path d) - 1]
      in case bandwidth_check (substrate_network p) d mapping arcs of
           Inl e \<Rightarrow> (Inl e, p)
         | Inr False \<Rightarrow> (Inr False, p)
         | Inr True \<Rightarrow>
             (case assign_resources (substrate_network p) d mapping arcs of
                (Some e, net') \<Rightarrow> (Inl e, p\<lparr>substrate_network := net'\<rparr>)
              | (None, net') \<Rightarrow>
                  (Inr True, p\<lparr>substrate_network := net',
                               allocations := (allocations p)(demand_id d \<mapsto> mapping)\<rparr>)))"

text \<open>Python's true division of two lengths; \<open>0.0\<close> when nothing was processed.\<close>

definition get_acceptance_ratio :: "processor \<Rightarrow> real" where
  "get_acceptance_ratio p =
     (let total_demands = length (accepted_demands p) + length (rejected_demands p)
      in if total_demands = 0 then 0
         else real (length (accepted_demands p)) / real total_demands)"

text \<open>The body of \<open>for demand in self.demands\<close>, one demand after the other.\<close>

fun process_loop :: "processor \<Rightarrow> demand list \<Rightarrow> py_error option \<times> processor" where
  "process_loop p [] = (None, p)"
| "process_loop p (d # rest) =
     (case find_all_possible_allocations p d of
        Inl e \<Rightarrow> (Some e, p)
      | Inr [] \<Rightarrow> process_loop (p\<lparr>rejected_demands := rejected_demands p @ [d]\<rparr>) rest
      | Inr (allocation # _) \<Rightarrow>
          (case allocate_demand p d allocation of
             (Inl e, p') \<Rightarrow> (Some e, p')
           | (Inr True, p') \<Rightarrow>
               process_loop (p'\<lparr>accepted_demands := accepted_demands p' @ [d]\<rparr>) rest
           | (Inr False, p') \<Rightarrow>
               process_loop (p'\<lparr>rejected_demands := rejected_demands p' @ [d]\<rparr>) rest))"

text \<open>
  \<open>self.demands.sort(key=...)\<close> sorts the list in place and is stable, as is the
  insertion sort \<open>sort_key\<close>; the loop then runs over the sorted list.
\<close>

definition total_bandwidth :: "demand \<Rightarrow> int" where
  "total_bandwidth d = sum_list (bandwidth d)"

definition process_all_demands :: "processor \<Rightarrow> (py_error + real) \<times> processor" where
  "process_all_demands p =
     (let p1 = p\<lparr>demands := sort_key total_bandwidth (demands p)\<rparr>
      in case process_loop p1 (demands p1) of
           (Some e, p') \<Rightarrow> (Inl e, p')
         | (None, p') \<Rightarrow> (Inr (get_acceptance_ratio p'), p'))"

subsection \<open>Callers and the validation example of \<open>main.py\<close>\<close>

text \<open>A caller that adds a list of demands, given as (id, path, bandwidth), in order.\<close>

definition add_demands :: "processor \<Rightarrow> (int \<times> int list \<times> int list) list \<Rightarrow> processor" where
  "add_demands p ds = foldl (\<lambda>q (did, pa, bw). add_demand q did pa bw) p ds"

definition substrate_example :: ndarray where
  "substrate_example =
     [[0, 12, 0, 0, 0],
      [0, 0, 10, 7, 0],
      [0, 0, 0, 0, 8],
      [0, 0, 0, 0, 6],
      [0, 0, 0, 0, 0]]"

definition residual_example :: ndarray where
  "residual_example =
     [[0, 8, 0, 0, 0],
      [0, 0, 4, 7, 0],
      [0, 0, 0, 0, 6],
      [0, 0, 0, 0, 6],
      [0, 0, 0, 0, 0]]"

definition demand_A :: demand where
  "demand_A = \<lparr>demand_id = 1, path = [1, 2, 3, 4], bandwidth = [8, 8, 5]\<rparr>"

definition demand_B :: demand where
  "demand_B = \<lparr>demand_id = 2, path = [1, 2, 3, 4], bandwidth = [4, 6, 2]\<rparr>"

text \<open>The processor of \<open>main\<close> just before it calls \<open>process_all_demands\<close>.\<close>

definition scenario :: processor where
  "scenario =
     add_demand
       (add_demand (snd (set_substrate_network init substrate_example)) 1 [1, 2, 3, 4] [8, 8, 5])
       2 [1, 2, 3, 4] [4, 6, 2]"

text \<open>A two-node substrate with the single arc 1\<rightarrow>2 of capacity 5.\<close>

definition two_nodes :: ndarray where
  "two_nodes = [[0, 5], [0, 0]]"

text \<open>The two-node substrate with one demand of two virtual nodes asking for 3.\<close>

definition one_demand :: processor where
  "one_demand = add_demand (snd (set_substrate_network init two_nodes)) 1 [1, 2] [3]"

subsection \<open>Describing what the allocator does\<close>

text \<open>
  The cell of the array that arc \<open>i\<close> of a mapping refers to, with its requirement: the
  reads of one round of the loops followed by NumPy's resolution of the two indices.
  An arc fits when it resolves and the cell holds at least the requirement. What the
  first \<open>n\<close> arcs of an allocation take from a cell is the sum of the requirements of
  those that land on it, and \<open>decremented\<close> is the array with that amount taken from
  every cell, in 64-bit arithmetic.
\<close>

definition arc_cell :: "ndarray \<Rightarrow> demand \<Rightarrow> int list \<Rightarrow> nat \<Rightarrow> py_error + (nat \<times> nat \<times> int)" where
  "arc_cell m d mapping i =
     (case arc d mapping i of
        Inl e \<Rightarrow> Inl e
      | Inr (src_node, dst_node, required_bandwidth) \<Rightarrow>
          (case np_locate m src_node dst_node of
             Inl e \<Rightarrow> Inl e
           | Inr (r, c) \<Rightarrow> Inr (r, c, required_bandwidth)))"

definition arc_resolves :: "ndarray \<Rightarrow> demand \<Rightarrow> int list \<Rightarrow> nat \<Rightarrow> bool" where
  "arc_resolves m d mapping i = (case arc_cell m d mapping i of Inl e \<Rightarrow> False | Inr x \<Rightarrow> True)"

definition arc_fits :: "ndarray \<Rightarrow> demand \<Rightarrow> int list \<Rightarrow> nat \<Rightarrow> bool" where
  "arc_fits m d mapping i =
     (case arc_cell m d mapping i of
        Inl e \<Rightarrow> False
      | Inr (r, c, q) \<Rightarrow> q \<le> sint (m ! r ! c))"

definition taken :: "ndarray \<Rightarrow> demand \<Rightarrow> int list \<Rightarrow> nat \<Rightarrow> nat \<Rightarrow> nat \<Rightarrow> int" where
  "taken m d mapping r c i =
     (case arc_cell m d mapping i of
        Inl e \<Rightarrow> 0
      | Inr (r', c', q) \<Rightarrow> if r' = r \<and> c' = c then q else 0)"

definition consumed :: "ndarray \<Rightarrow> demand \<Rightarrow> int list \<Rightarrow> nat \<Rightarrow> nat \<Rightarrow> nat \<Rightarrow> int" where
  "consumed m d mapping n r c = sum_list (map (taken m d mapping r c) [0..<n])"

definition decremented :: "ndarray \<Rightarrow> demand \<Rightarrow> int list \<Rightarrow> nat \<Rightarrow> ndarray" where
  "decremented m d mapping n =
     map (\<lambda>r. map (\<lambda>c. m ! r ! c - word_of_int (consumed m d mapping n r c))
                  [0..<length (m ! r)])
       [0..<length m]"

text \<open>A processor whose substrate is the residual matrix of the example.\<close>

definition starved :: processor where
  "starved = init\<lparr>substrate_network := Some residual_example\<rparr>"

subsection \<open>The order of enumeration\<close>

text \<open>The strict lexicographic order on sequences of labels.\<close>

definition lex_less :: "'a::linorder list \<Rightarrow> 'a list \<Rightarrow> bool" where
  "lex_less a b \<longleftrightarrow> (a, b) \<in> lexord {(x, y). x < y}"

subsection \<open>The capacity invariant\<close>

text \<open>
  A residual matrix is within capacity when it has the shape of the original and every
  entry, read as a signed number, lies between 0 and the original entry. The invariant of a processor says so of
  its two matrices, once both are set.
\<close>

definition within_capacity :: "ndarray \<Rightarrow> ndarray \<Rightarrow> bool" where
  "within_capacity residual original =
     list_all2 (list_all2 (\<lambda>x cap. 0 \<le> sint x \<and> sint x \<le> sint cap)) residual original"

definition capacity_invariant :: "processor \<Rightarrow> bool" where
  "capacity_invariant p =
     (case substrate_network p of
        None \<Rightarrow> False
      | Some residual \<Rightarrow>
          (case original_substrate p of
             Some (Some original) \<Rightarrow> within_capacity residual original
           | _ \<Rightarrow> False))"

text \<open>The two-node substrate with one demand whose requirement is negative.\<close>

definition negative_demand :: processor where
  "negative_demand = add_demand (snd (set_substrate_network init two_nodes)) 1 [1, 2] [- 3]"

subsection \<open>Requirements at the edge of \<open>int64\<close>\<close>

text \<open>
  A three-node substrate with the arcs 1\<rightarrow>2 and 2\<rightarrow>3 of capacity 5, and a demand
  whose second requirement, \<open>- 2^64\<close>, does not fit in an \<open>int64\<close>.
\<close>

definition three_nodes :: ndarray where
  "three_nodes = [[0, 5, 0], [0, 0, 5], [0, 0, 0]]"

definition three_nodes_set :: processor where
  "three_nodes_set = snd (set_substrate_network init three_nodes)"

definition overflow_demand :: demand where
  "overflow_demand =
     \<lparr>demand_id = 1, path = [1, 2, 3], bandwidth = [1, - 18446744073709551616]\<rparr>"

text \<open>
  A two-node substrate whose arc 1\<rightarrow>2 holds the largest \<open>int64\<close>, \<open>2^63 - 1\<close>, and a
  demand that asks for \<open>-1\<close> on it.
\<close>

definition full_arc :: ndarray where
  "full_arc = [[0, 9223372036854775807], [0, 0]]"

definition full_arc_set :: processor where
  "full_arc_set = snd (set_substrate_network init full_arc)"

definition grow_demand :: demand where
  "grow_demand = \<lparr>demand_id = 1, path = [1, 2], bandwidth = [- 1]\<rparr>"

section \<open>Properties\<close>

subsection \<open>What the loops leave alone\<close>

lemma find_all_substrate:
  "substrate_network p = substrate_network q \<Longrightarrow>
   find_all_possible_allocations p d = find_all_possible_allocations q d"
  by (simp add: find_all_possible_allocations_def)

lemma allocate_demand_frame:
  "demands (snd (allocate_demand p d mapping)) = demands p"
  "original_substrate (snd (allocate_demand p d mapping)) = original_substrate p"
  "accepted_demands (snd (allocate_demand p d mapping)) = accepted_demands p"
  "rejected_demands (snd (allocate_demand p d mapping)) = rejected_demands p"
  by (simp_all add: allocate_demand_def Let_def split: sum.split bool.split prod.split option.split)

lemma process_loop_frame:
  "demands (snd (process_loop p ds)) = demands p \<and>
   original_substrate (snd (process_loop p ds)) = original_substrate p"
proof (induction ds arbitrary: p)
  case Nil
  show ?case by simp
next
  case (Cons d ds)
  show ?case
  proof (cases "find_all_possible_allocations p d")
    case (Inl e)
    then show ?thesis by simp
  next
    case (Inr ms)
    show ?thesis
    proof (cases ms)
      case Nil
      with Inr Cons.IH show ?thesis by simp
    next
      case (Cons m rest)
      obtain res p' where a: "allocate_demand p d m = (res, p')"
        by (cases "allocate_demand p d m")
      have f: "demands p' = demands p" "original_substrate p' = original_substrate p"
        using allocate_demand_frame(1,2)[of p d m] a by simp_all
      show ?thesis
        using Inr Cons a f Cons.IH
        by (cases res) (simp_all split: bool.split)
    qed
  qed
qed

lemma process_loop_mset:
  "process_loop p ds = (None, p') \<Longrightarrow>
   mset (accepted_demands p') + mset (rejected_demands p') =
   mset (accepted_demands p) + mset (rejected_demands p) + mset ds"
proof (induction ds arbitrary: p)
  case Nil
  then show ?case by simp
next
  case (Cons d ds)
  show ?case
  proof (cases "find_all_possible_allocations p d")
    case (Inl e)
    with Cons.prems show ?thesis by simp
  next
    case (Inr ms)
    show ?thesis
    proof (cases ms)
      case Nil
      with Inr Cons.prems Cons.IH[of "p\<lparr>rejected_demands := rejected_demands p @ [d]\<rparr>"]
      show ?thesis by simp
    next
      case (Cons m rest)
      obtain res q where a: "allocate_demand p d m = (res, q)"
        by (cases "allocate_demand p d m")
      have f: "accepted_demands q = accepted_demands p" "rejected_demands q = rejected_demands p"
        using allocate_demand_frame(3,4)[of p d m] a by simp_all
      show ?thesis
      proof (cases res)
        case (Inl e)
        with Inr Cons a Cons.prems show ?thesis by simp
      next
        case (Inr b)
        show ?thesis
        proof (cases b)
          case True
          with \<open>find_all_possible_allocations p d = Inr ms\<close> Cons a Inr Cons.prems f
            Cons.IH[of "q\<lparr>accepted_demands := accepted_demands q @ [d]\<rparr>"]
          show ?thesis by simp
        next
          case False
          with \<open>find_all_possible_allocations p d = Inr ms\<close> Cons a Inr Cons.prems f
            Cons.IH[of "q\<lparr>rejected_demands := rejected_demands q @ [d]\<rparr>"]
          show ?thesis by simp
        qed
      qed
    qed
  qed
qed

lemma process_all_demands_demands:
  "demands (snd (process_all_demands p)) = sort_key total_bandwidth (demands p)"
proof -
  let ?p1 = "p\<lparr>demands := sort_key total_bandwidth (demands p)\<rparr>"
  have "demands (snd (process_loop ?p1 (demands ?p1))) = demands ?p1"
    using process_loop_frame by blast
  then show ?thesis
    by (auto simp add: process_all_demands_def Let_def split: prod.split option.split)
qed

lemma process_all_demands_original:
  "original_substrate (snd (process_all_demands p)) = original_substrate p"
proof -
  let ?p1 = "p\<lparr>demands := sort_key total_bandwidth (demands p)\<rparr>"
  have "original_substrate (snd (process_loop ?p1 (demands ?p1))) = original_substrate ?p1"
    using process_loop_frame by blast
  then show ?thesis
    by (auto simp add: process_all_demands_def Let_def split: prod.split option.split)
qed

subsection \<open>The example of \<open>main.py\<close>, step by step\<close>

lemma scenario_demands: "demands scenario = [demand_A, demand_B]"
  by (simp add: scenario_def add_demand_def set_substrate_network_def init_def
      demand_A_def demand_B_def)

lemma scenario_sorted: "sort_key total_bandwidth [demand_A, demand_B] = [demand_B, demand_A]"
  by (simp add: total_bandwidth_def demand_A_def demand_B_def)

lemma scenario_find_B:
  "find_all_possible_allocations (init\<lparr>substrate_network := Some substrate_example\<rparr>) demand_B
     = Inr [[1, 2, 3, 5], [1, 2, 4, 5]]"
  by code_simp

lemma scenario_find_A:
  "find_all_possible_allocations (init\<lparr>substrate_network := Some residual_example\<rparr>) demand_A
     = Inr []"
  by code_simp

lemma scenario_allocate_B:
  assumes "substrate_network p = Some substrate_example"
  shows "allocate_demand p demand_B [1, 2, 3, 5] =
           (Inr True, p\<lparr>substrate_network := Some residual_example,
                        allocations := (allocations p)(2 \<mapsto> [1, 2, 3, 5])\<rparr>)"
proof -
  have idx: "[0..<length (path demand_B) - Suc 0] = [0, Suc 0, 2]"
    by (simp add: demand_B_def upt_rec)
  have a0: "arc demand_B [1, 2, 3, 5] 0 = Inr (0, 1, 4)"
    and a1: "arc demand_B [1, 2, 3, 5] (Suc 0) = Inr (1, 2, 6)"
    and a2: "arc demand_B [1, 2, 3, 5] 2 = Inr (2, 4, 2)"
    by (simp_all add: arc_def py_index_def demand_B_def)
  have chk: "bandwidth_check (Some substrate_example) demand_B [1, 2, 3, 5] [0, Suc 0, 2] = Inr True"
    by code_simp
  have asg: "assign_resources (Some substrate_example) demand_B [1, 2, 3, 5] [0, Suc 0, 2]
               = (None, Some residual_example)"
    by code_simp
  have did: "demand_id demand_B = 2"
    by (simp add: demand_B_def)
  show ?thesis
    by (simp add: allocate_demand_def Let_def idx assms chk asg did
        del: bandwidth_check.simps assign_resources.simps)
qed

lemma scenario_run:
  "process_all_demands scenario =
     (Inr (1 / 2),
      \<lparr>substrate_network = Some residual_example,
       original_substrate = Some (Some substrate_example),
       demands = [demand_B, demand_A],
       accepted_demands = [demand_B],
       rejected_demands = [demand_A],
       allocations = [2 \<mapsto> [1, 2, 3, 5]]\<rparr>)"
proof -
  let ?p1 = "\<lparr>substrate_network = Some substrate_example,
       original_substrate = Some (Some substrate_example),
       demands = [demand_B, demand_A],
       accepted_demands = [],
       rejected_demands = [],
       allocations = Map.empty\<rparr>"
  let ?p3 = "\<lparr>substrate_network = Some residual_example,
       original_substrate = Some (Some substrate_example),
       demands = [demand_B, demand_A],
       accepted_demands = [demand_B],
       rejected_demands = [],
       allocations = [2 \<mapsto> [1, 2, 3, 5]]\<rparr>"
  have sorted: "scenario\<lparr>demands := sort_key total_bandwidth (demands scenario)\<rparr> = ?p1"
    unfolding scenario_demands scenario_sorted
    by (simp add: scenario_def add_demand_def set_substrate_network_def init_def)
  have fB: "find_all_possible_allocations ?p1 demand_B = Inr [[1, 2, 3, 5], [1, 2, 4, 5]]"
    using find_all_substrate [of ?p1 "init\<lparr>substrate_network := Some substrate_example\<rparr>" demand_B]
      scenario_find_B by simp
  have aB: "allocate_demand ?p1 demand_B [1, 2, 3, 5] =
     (Inr True, \<lparr>substrate_network = Some residual_example,
       original_substrate = Some (Some substrate_example),
       demands = [demand_B, demand_A],
       accepted_demands = [],
       rejected_demands = [],
       allocations = [2 \<mapsto> [1, 2, 3, 5]]\<rparr>)"
    using scenario_allocate_B [of ?p1] by simp
  have fA: "find_all_possible_allocations ?p3 demand_A = Inr []"
    using find_all_substrate [of ?p3 "init\<lparr>substrate_network := Some residual_example\<rparr>" demand_A]
      scenario_find_A by simp
  have loop: "process_loop ?p1 [demand_B, demand_A] =
                (None, ?p3\<lparr>rejected_demands := [demand_A]\<rparr>)"
    by (simp add: fB aB fA del: fun_upd_apply)
  have "process_all_demands scenario =
          (case process_loop ?p1 [demand_B, demand_A] of
             (Some e, p') \<Rightarrow> (Inl e, p')
           | (None, p') \<Rightarrow> (Inr (get_acceptance_ratio p'), p'))"
    by (simp add: process_all_demands_def Let_def sorted del: process_loop.simps)
  then show ?thesis
    by (simp add: loop get_acceptance_ratio_def del: process_loop.simps)
qed

text \<open>
  Claim C1. In the example of \<open>main.py\<close> the totals are A = 21 and B = 12, so the sorted
  list is \<open>[B, A]\<close>; on the untouched substrate the mappings of B are \<open>[1,2,3,5]\<close> and
  \<open>[1,2,4,5]\<close>, in this order; the pass accepts B with the first of them, which leaves
  1\<rightarrow>2:8, 2\<rightarrow>3:4, 3\<rightarrow>5:6 (the matrix \<open>residual_example\<close>); A has no mapping on
  that residual matrix and is rejected; the returned ratio is one half.
\<close>

theorem scenario_main:
  "total_bandwidth demand_A = 21 \<and> total_bandwidth demand_B = 12 \<and>
   sort_key total_bandwidth (demands scenario) = [demand_B, demand_A] \<and>
   find_all_possible_allocations scenario demand_B = Inr [[1, 2, 3, 5], [1, 2, 4, 5]] \<and>
   process_all_demands scenario =
     (Inr (1 / 2),
      \<lparr>substrate_network = Some residual_example,
       original_substrate = Some (Some substrate_example),
       demands = [demand_B, demand_A],
       accepted_demands = [demand_B],
       rejected_demands = [demand_A],
       allocations = [2 \<mapsto> [1, 2, 3, 5]]\<rparr>) \<and>
   residual_example ! 0 ! 1 = 8 \<and> residual_example ! 1 ! 2 = 4 \<and> residual_example ! 2 ! 4 = 6 \<and>
   find_all_possible_allocations (snd (process_all_demands scenario)) demand_A = Inr []"
proof -
  have t: "total_bandwidth demand_A = 21" "total_bandwidth demand_B = 12"
    by (simp_all add: total_bandwidth_def demand_A_def demand_B_def)
  have s: "sort_key total_bandwidth (demands scenario) = [demand_B, demand_A]"
    by (simp only: scenario_demands scenario_sorted)
  have "substrate_network scenario = Some substrate_example"
    by (simp add: scenario_def add_demand_def set_substrate_network_def)
  then have fB: "find_all_possible_allocations scenario demand_B = Inr [[1, 2, 3, 5], [1, 2, 4, 5]]"
    using find_all_substrate [of scenario "init\<lparr>substrate_network := Some substrate_example\<rparr>" demand_B]
      scenario_find_B by simp
  have "substrate_network (snd (process_all_demands scenario)) = Some residual_example"
    by (simp add: scenario_run)
  then have fA: "find_all_possible_allocations (snd (process_all_demands scenario)) demand_A = Inr []"
    using find_all_substrate [of "snd (process_all_demands scenario)"
        "init\<lparr>substrate_network := Some residual_example\<rparr>" demand_A]
      scenario_find_A by simp
  have r: "residual_example ! 0 ! 1 = 8" "residual_example ! 1 ! 2 = 4" "residual_example ! 2 ! 4 = 6"
    by (simp_all add: residual_example_def)
  show ?thesis
    using t s fB fA r scenario_run by simp
qed

subsection \<open>\<open>reset\<close>\<close>

theorem reset_empties_demands_counterexample:
  "\<not> demands (snd (reset (add_demand (snd (set_substrate_network init two_nodes)) 1 [1, 2] [3])))
     = demands (add_demand (snd (set_substrate_network init two_nodes)) 1 [1, 2] [3])"
  by (simp add: reset_def add_demand_def set_substrate_network_def init_def)

text \<open>
  Claim C2, as the code has it. For every processor whose baseline matrix has been set,
  \<open>reset\<close> returns normally, makes the residual matrix equal to the baseline, keeps the
  baseline, and empties the accepted list, the rejected list, the allocations map and
  also the demand list (the code assigns \<open>self.demands = []\<close>; the demand list is not
  retained).
\<close>

theorem reset_restores_and_clears:
  assumes "original_substrate p = Some (Some m)"
  shows "fst (reset p) = Inr () \<and>
         substrate_network (snd (reset p)) = Some m \<and>
         original_substrate (snd (reset p)) = Some (Some m) \<and>
         accepted_demands (snd (reset p)) = [] \<and>
         rejected_demands (snd (reset p)) = [] \<and>
         allocations (snd (reset p)) = Map.empty \<and>
         demands (snd (reset p)) = []"
  using assms by (simp add: reset_def)

theorem reset_restores_and_clears_witness:
  "original_substrate (snd (process_all_demands scenario)) = Some (Some substrate_example) \<and>
   fst (reset (snd (process_all_demands scenario))) = Inr () \<and>
   substrate_network (snd (reset (snd (process_all_demands scenario)))) = Some substrate_example \<and>
   demands (snd (reset (snd (process_all_demands scenario)))) = []"
proof -
  have h: "original_substrate (snd (process_all_demands scenario)) = Some (Some substrate_example)"
    by (simp add: process_all_demands_original scenario_def add_demand_def
        set_substrate_network_def)
  show ?thesis
    using h reset_restores_and_clears [OF h] by simp
qed

subsection \<open>\<open>set_substrate_network\<close>\<close>

theorem set_substrate_network_unvalidated_counterexample:
  "fst (set_substrate_network init [[0, - 1], [0, 0]]) = Inr () \<and>
   substrate_network (snd (set_substrate_network init [[0, - 1], [0, 0]])) = Some [[0, - 1], [0, 0]] \<and>
   fst (set_substrate_network init [[1, 2, 3]]) = Inr () \<and>
   substrate_network (snd (set_substrate_network init [[1, 2, 3]])) = Some [[1, 2, 3]]"
  by (simp add: set_substrate_network_def)

text \<open>
  Claim C8, as the code has it. \<open>set_substrate_network\<close> performs no validation: for
  every matrix, square or not, with or without negative entries, it returns normally and
  stores the matrix both as the residual and as the original copy, leaving the demand
  list, the accepted and rejected lists and the allocations as they were.
\<close>

theorem set_substrate_network_stores_any:
  "fst (set_substrate_network p m) = Inr () \<and>
   substrate_network (snd (set_substrate_network p m)) = Some m \<and>
   original_substrate (snd (set_substrate_network p m)) = Some (Some m) \<and>
   demands (snd (set_substrate_network p m)) = demands p \<and>
   accepted_demands (snd (set_substrate_network p m)) = accepted_demands p \<and>
   rejected_demands (snd (set_substrate_network p m)) = rejected_demands p \<and>
   allocations (snd (set_substrate_network p m)) = allocations p"
  by (simp add: set_substrate_network_def)

subsection \<open>The order of processing\<close>


lemma process_loop_recorded:
  "\<exists>bs. length bs \<le> length ds \<and>
         (fst (process_loop p ds) = None \<longrightarrow> length bs = length ds) \<and>
         accepted_demands (snd (process_loop p ds))
           = accepted_demands p @ map fst (filter snd (zip ds bs)) \<and>
         rejected_demands (snd (process_loop p ds))
           = rejected_demands p @ map fst (filter (\<lambda>x. \<not> snd x) (zip ds bs))"
proof (induction ds arbitrary: p)
  case Nil
  show ?case by simp
next
  case (Cons d ds)
  have stop: ?case if "fst (process_loop p (d # ds)) \<noteq> None"
      "accepted_demands (snd (process_loop p (d # ds))) = accepted_demands p"
      "rejected_demands (snd (process_loop p (d # ds))) = rejected_demands p"
    using that by (intro exI [of _ "[]"]) (simp del: process_loop.simps)
  have go: ?case if run: "process_loop p (d # ds) = process_loop q ds"
      and acc: "accepted_demands q = accepted_demands p @ (if b then [d] else [])"
      and rej: "rejected_demands q = rejected_demands p @ (if b then [] else [d])" for q b
  proof -
    from Cons.IH [of q] obtain bs where bs: "length bs \<le> length ds"
      "fst (process_loop q ds) = None \<longrightarrow> length bs = length ds"
      "accepted_demands (snd (process_loop q ds))
         = accepted_demands q @ map fst (filter snd (zip ds bs))"
      "rejected_demands (snd (process_loop q ds))
         = rejected_demands q @ map fst (filter (\<lambda>x. \<not> snd x) (zip ds bs))"
      by (elim exE conjE)
    show ?thesis
      by (rule exI [of _ "b # bs"])
        (use bs acc rej in \<open>simp add: run del: process_loop.simps\<close>)
  qed
  show ?case
  proof (cases "find_all_possible_allocations p d")
    case (Inl e)
    then show ?thesis by (intro stop) simp_all
  next
    case (Inr ms)
    show ?thesis
    proof (cases ms)
      case Nil
      with Inr show ?thesis
        by (intro go [of "p\<lparr>rejected_demands := rejected_demands p @ [d]\<rparr>" False]) simp_all
    next
      case (Cons m others)
      obtain res q where a: "allocate_demand p d m = (res, q)"
        by (cases "allocate_demand p d m")
      have f: "accepted_demands q = accepted_demands p" "rejected_demands q = rejected_demands p"
        using allocate_demand_frame(3,4) [of p d m] a by simp_all
      show ?thesis
      proof (cases res)
        case (Inl e)
        with Inr Cons a f show ?thesis by (intro stop) simp_all
      next
        case ok: (Inr b)
        show ?thesis
        proof (cases b)
          case True
          with Inr Cons a ok f show ?thesis
            by (intro go [of "q\<lparr>accepted_demands := accepted_demands q @ [d]\<rparr>" True]) simp_all
        next
          case False
          with Inr Cons a ok f show ?thesis
            by (intro go [of "q\<lparr>rejected_demands := rejected_demands q @ [d]\<rparr>" False]) simp_all
        qed
      qed
    qed
  qed
qed

lemma total_bandwidth_sum: "total_bandwidth = (\<lambda>d. sum_list (bandwidth d))"
  by (rule ext) (simp add: total_bandwidth_def)

text \<open>
  Claim C6. A pass records the demands in ascending order of the sum of their per-arc
  requirements, equal sums in insertion order. With \<open>ds\<close> the stored demands sorted
  by that sum, the demands a pass appends to the accepted list and those it appends to
  the rejected list are, each in the order of appending, the demands of \<open>ds\<close> with the
  outcome accepted and with the outcome rejected, for a list of outcomes that covers a
  prefix of \<open>ds\<close> and the whole of \<open>ds\<close> when the pass returns. \<open>ds\<close> is ascending in
  the sum and keeps demands of equal sum in the order in which they were inserted. In
  the example of \<open>main.py\<close>, where A was inserted before B, \<open>ds\<close> is \<open>[B, A]\<close> and
  the pass accepts B and rejects A.
\<close>

theorem process_all_demands_order:
  "(\<exists>bs. length bs \<le> length (demands p) \<and>
          ((\<exists>r. fst (process_all_demands p) = Inr r) \<longrightarrow> length bs = length (demands p)) \<and>
          accepted_demands (snd (process_all_demands p))
            = accepted_demands p @
                map fst (filter snd
                  (zip (sort_key (\<lambda>d. sum_list (bandwidth d)) (demands p)) bs)) \<and>
          rejected_demands (snd (process_all_demands p))
            = rejected_demands p @
                map fst (filter (\<lambda>x. \<not> snd x)
                  (zip (sort_key (\<lambda>d. sum_list (bandwidth d)) (demands p)) bs))) \<and>
   sorted (map (\<lambda>d. sum_list (bandwidth d))
             (sort_key (\<lambda>d. sum_list (bandwidth d)) (demands p))) \<and>
   mset (sort_key (\<lambda>d. sum_list (bandwidth d)) (demands p)) = mset (demands p) \<and>
   (\<forall>k. filter (\<lambda>d. sum_list (bandwidth d) = k)
           (sort_key (\<lambda>d. sum_list (bandwidth d)) (demands p))
        = filter (\<lambda>d. sum_list (bandwidth d) = k) (demands p)) \<and>
   demands scenario = [demand_A, demand_B] \<and>
   sort_key (\<lambda>d. sum_list (bandwidth d)) (demands scenario) = [demand_B, demand_A] \<and>
   accepted_demands (snd (process_all_demands scenario)) = [demand_B] \<and>
   rejected_demands (snd (process_all_demands scenario)) = [demand_A]"
proof -
  let ?ds = "sort_key (\<lambda>d. sum_list (bandwidth d)) (demands p)"
  let ?p1 = "p\<lparr>demands := ?ds\<rparr>"
  obtain e q where l: "process_loop ?p1 ?ds = (e, q)"
    by (cases "process_loop ?p1 ?ds")
  have pass: "process_all_demands p =
                (case e of Some x \<Rightarrow> (Inl x, q) | None \<Rightarrow> (Inr (get_acceptance_ratio q), q))"
    using l by (simp add: process_all_demands_def Let_def total_bandwidth_sum)
  from process_loop_recorded [of ?ds ?p1] l obtain bs where bs: "length bs \<le> length ?ds"
    "e = None \<longrightarrow> length bs = length ?ds"
    "accepted_demands q = accepted_demands p @ map fst (filter snd (zip ?ds bs))"
    "rejected_demands q = rejected_demands p @ map fst (filter (\<lambda>x. \<not> snd x) (zip ?ds bs))"
    by auto
  have recorded: "\<exists>bs. length bs \<le> length (demands p) \<and>
          ((\<exists>r. fst (process_all_demands p) = Inr r) \<longrightarrow> length bs = length (demands p)) \<and>
          accepted_demands (snd (process_all_demands p))
            = accepted_demands p @ map fst (filter snd (zip ?ds bs)) \<and>
          rejected_demands (snd (process_all_demands p))
            = rejected_demands p @ map fst (filter (\<lambda>x. \<not> snd x) (zip ?ds bs))"
    by (rule exI [of _ bs]) (use bs pass in \<open>cases e; simp\<close>)
  have example: "accepted_demands (snd (process_all_demands scenario)) = [demand_B]"
    "rejected_demands (snd (process_all_demands scenario)) = [demand_A]"
    by (simp_all add: scenario_run)
  have other: "sort_key (\<lambda>d. sum_list (bandwidth d)) (demands scenario) = [demand_B, demand_A]"
    using scenario_sorted by (simp only: scenario_demands total_bandwidth_sum)
  have ascending: "sorted (map (\<lambda>d. sum_list (bandwidth d)) ?ds)"
    by (rule sorted_sort_key)
  have same: "mset ?ds = mset (demands p)"
    by (rule mset_sort)
  have stable: "\<forall>k. filter (\<lambda>d. sum_list (bandwidth d) = k) ?ds
                     = filter (\<lambda>d. sum_list (bandwidth d) = k) (demands p)"
    by (intro allI sort_key_stable)
  from recorded ascending same stable scenario_demands example other show ?thesis
    by blast
qed

theorem process_all_demands_order_witness:
  "fst (process_all_demands scenario) = Inr (1 / 2) \<and>
   sort_key (\<lambda>d. sum_list (bandwidth d)) (demands scenario) = [demand_B, demand_A] \<and>
   (\<exists>bs. length bs = 2 \<and>
          accepted_demands (snd (process_all_demands scenario))
            = accepted_demands scenario @ map fst (filter snd (zip [demand_B, demand_A] bs)) \<and>
          rejected_demands (snd (process_all_demands scenario))
            = rejected_demands scenario @
                map fst (filter (\<lambda>x. \<not> snd x) (zip [demand_B, demand_A] bs)))"
proof -
  have r: "fst (process_all_demands scenario) = Inr (1 / 2)"
    by (simp add: scenario_run)
  have s: "sort_key (\<lambda>d. sum_list (bandwidth d)) (demands scenario) = [demand_B, demand_A]"
    using scenario_sorted by (simp only: scenario_demands total_bandwidth_sum)
  have n: "length (demands scenario) = 2"
    by (simp add: scenario_demands)
  from process_all_demands_order [of scenario] r
  obtain bs where "length bs = length (demands scenario)"
    "accepted_demands (snd (process_all_demands scenario))
       = accepted_demands scenario @
           map fst (filter snd (zip (sort_key (\<lambda>d. sum_list (bandwidth d)) (demands scenario)) bs))"
    "rejected_demands (snd (process_all_demands scenario))
       = rejected_demands scenario @
           map fst (filter (\<lambda>x. \<not> snd x)
             (zip (sort_key (\<lambda>d. sum_list (bandwidth d)) (demands scenario)) bs))"
    by blast
  then have "\<exists>bs. length bs = 2 \<and>
          accepted_demands (snd (process_all_demands scenario))
            = accepted_demands scenario @ map fst (filter snd (zip [demand_B, demand_A] bs)) \<and>
          rejected_demands (snd (process_all_demands scenario))
            = rejected_demands scenario @
                map fst (filter (\<lambda>x. \<not> snd x) (zip [demand_B, demand_A] bs))"
    unfolding s n by blast
  with r s show ?thesis by blast
qed

subsection \<open>Running again\<close>

lemma add_demands_frame:
  "substrate_network (add_demands p ds) = substrate_network p \<and>
   original_substrate (add_demands p ds) = original_substrate p \<and>
   accepted_demands (add_demands p ds) = accepted_demands p \<and>
   rejected_demands (add_demands p ds) = rejected_demands p \<and>
   allocations (add_demands p ds) = allocations p"
  unfolding add_demands_def
  by (induction ds arbitrary: p) (auto simp: add_demand_def)

lemma reset_after_set:
  assumes "original_substrate q = Some (Some m)"
  shows "snd (reset q) = snd (set_substrate_network init m)"
  using assms by (cases q) (simp add: reset_def set_substrate_network_def init_def)

lemma process_all_demands_empty:
  assumes "demands p = []" "accepted_demands p = []" "rejected_demands p = []"
  shows "process_all_demands p = (Inr 0, p)"
  using assms by (simp add: process_all_demands_def get_acceptance_ratio_def)

lemma process_all_demands_mset:
  assumes "fst (process_all_demands p) = Inr r"
  shows "mset (accepted_demands (snd (process_all_demands p)))
           + mset (rejected_demands (snd (process_all_demands p)))
         = mset (accepted_demands p) + mset (rejected_demands p) + mset (demands p) \<and>
         r = get_acceptance_ratio (snd (process_all_demands p))"
proof -
  let ?p1 = "p\<lparr>demands := sort_key total_bandwidth (demands p)\<rparr>"
  obtain e q where l: "process_loop ?p1 (demands ?p1) = (e, q)"
    by (cases "process_loop ?p1 (demands ?p1)")
  with assms have e: "e = None"
    by (cases e) (simp_all add: process_all_demands_def Let_def)
  with l have pq: "process_all_demands p = (Inr (get_acceptance_ratio q), q)"
    by (simp add: process_all_demands_def Let_def)
  from l e have "mset (accepted_demands q) + mset (rejected_demands q) =
      mset (accepted_demands ?p1) + mset (rejected_demands ?p1) + mset (demands ?p1)"
    using process_loop_mset [of ?p1 "demands ?p1" q] by simp
  with pq assms show ?thesis by simp
qed

theorem rerun_after_reset_counterexample:
  "allocations (snd (process_all_demands (snd (reset (snd (process_all_demands scenario))))))
     \<noteq> allocations (snd (process_all_demands scenario)) \<and>
   fst (process_all_demands (snd (reset (snd (process_all_demands scenario)))))
     \<noteq> fst (process_all_demands scenario)"
proof -
  let ?q = "snd (reset (snd (process_all_demands scenario)))"
  have q: "?q = snd (set_substrate_network init substrate_example)"
    by (rule reset_after_set) (simp add: scenario_run)
  have "process_all_demands ?q = (Inr 0, ?q)"
    unfolding q by (rule process_all_demands_empty) (simp_all add: set_substrate_network_def init_def)
  then have a: "allocations (snd (process_all_demands ?q)) = Map.empty"
    and b: "fst (process_all_demands ?q) = Inr 0"
    by (simp_all add: q set_substrate_network_def init_def)
  have "allocations (snd (process_all_demands scenario)) 2 = Some [1, 2, 3, 5]"
    by (simp add: scenario_run)
  with a have "allocations (snd (process_all_demands ?q)) \<noteq> allocations (snd (process_all_demands scenario))"
    by (metis option.distinct(1))
  moreover have "fst (process_all_demands scenario) = Inr (1 / 2)"
    by (simp add: scenario_run)
  with b have "fst (process_all_demands ?q) \<noteq> fst (process_all_demands scenario)"
    by simp
  ultimately show ?thesis by simp
qed

text \<open>
  Claim C3, as the code has it. \<open>reset\<close> empties the demand list, so a second pass
  right after it has nothing to process: it returns the ratio 0 and leaves the
  allocations empty. The first run is reproduced when the caller adds the same demands
  again, in the same order, after \<open>reset\<close>: the second pass then returns the same
  outcome and leaves the same processor (allocations, accepted and rejected lists,
  residual matrix) as the first.
\<close>

theorem rerun_after_reset:
  "process_all_demands
     (add_demands
        (snd (reset (snd (process_all_demands
           (add_demands (snd (set_substrate_network init m)) ds))))) ds)
   = process_all_demands (add_demands (snd (set_substrate_network init m)) ds) \<and>
   process_all_demands
     (snd (reset (snd (process_all_demands
        (add_demands (snd (set_substrate_network init m)) ds)))))
   = (Inr 0, snd (set_substrate_network init m)) \<and>
   allocations (snd (set_substrate_network init m)) = Map.empty"
proof -
  let ?start = "add_demands (snd (set_substrate_network init m)) ds"
  have "original_substrate ?start = Some (Some m)"
    by (simp add: add_demands_frame set_substrate_network_def)
  then have "original_substrate (snd (process_all_demands ?start)) = Some (Some m)"
    by (simp add: process_all_demands_original)
  then have r: "snd (reset (snd (process_all_demands ?start))) = snd (set_substrate_network init m)"
    by (rule reset_after_set)
  have "process_all_demands (snd (set_substrate_network init m))
          = (Inr 0, snd (set_substrate_network init m))"
    by (rule process_all_demands_empty) (simp_all add: set_substrate_network_def init_def)
  then show ?thesis
    by (simp add: r) (simp add: set_substrate_network_def init_def)
qed

text \<open>
  Claim C10. A second pass without \<open>reset\<close> in between appends every demand once
  more to the accepted or the rejected list: starting with both lists empty, after two
  passes that return normally the two lists together hold every demand exactly twice,
  their combined length is twice the number of demands, and the returned ratio divides
  by that doubled count.
\<close>

theorem process_twice_double_counts:
  assumes "accepted_demands p = []" and "rejected_demands p = []"
    and "fst (process_all_demands p) = Inr r1"
    and "fst (process_all_demands (snd (process_all_demands p))) = Inr r2"
  shows "length (accepted_demands (snd (process_all_demands p)))
           + length (rejected_demands (snd (process_all_demands p))) = length (demands p) \<and>
         length (accepted_demands (snd (process_all_demands (snd (process_all_demands p)))))
           + length (rejected_demands (snd (process_all_demands (snd (process_all_demands p)))))
           = 2 * length (demands p) \<and>
         mset (accepted_demands (snd (process_all_demands (snd (process_all_demands p)))))
           + mset (rejected_demands (snd (process_all_demands (snd (process_all_demands p)))))
           = mset (demands p) + mset (demands p) \<and>
         (demands p \<noteq> [] \<longrightarrow>
            r2 = real (length (accepted_demands (snd (process_all_demands (snd (process_all_demands p))))))
                 / real (2 * length (demands p)))"
proof -
  let ?p1 = "snd (process_all_demands p)"
  let ?p2 = "snd (process_all_demands ?p1)"
  have m1: "mset (accepted_demands ?p1) + mset (rejected_demands ?p1) = mset (demands p)"
    using process_all_demands_mset [OF assms(3)] assms(1,2) by simp
  have d1: "mset (demands ?p1) = mset (demands p)"
    by (simp add: process_all_demands_demands)
  have m2: "mset (accepted_demands ?p2) + mset (rejected_demands ?p2)
              = mset (demands p) + mset (demands p)"
    using process_all_demands_mset [OF assms(4)] m1 d1 by simp
  have r2: "r2 = get_acceptance_ratio ?p2"
    using process_all_demands_mset [OF assms(4)] by simp
  have l1: "length (accepted_demands ?p1) + length (rejected_demands ?p1) = length (demands p)"
    using arg_cong [OF m1, of size] by simp
  have l2: "length (accepted_demands ?p2) + length (rejected_demands ?p2) = 2 * length (demands p)"
    using arg_cong [OF m2, of size] by simp
  have "demands p \<noteq> [] \<longrightarrow>
          r2 = real (length (accepted_demands ?p2)) / real (2 * length (demands p))"
    unfolding r2 get_acceptance_ratio_def Let_def l2 by simp
  with l1 l2 m2 show ?thesis by blast
qed

theorem process_twice_double_counts_witness:
  "accepted_demands one_demand = [] \<and> rejected_demands one_demand = [] \<and>
   fst (process_all_demands one_demand) = Inr 1 \<and>
   fst (process_all_demands (snd (process_all_demands one_demand))) = Inr (1 / 2) \<and>
   length (accepted_demands (snd (process_all_demands (snd (process_all_demands one_demand)))))
     + length (rejected_demands (snd (process_all_demands (snd (process_all_demands one_demand)))))
     = 2 * length (demands one_demand) \<and>
   length (demands one_demand) = 1"
proof -
  have a: "accepted_demands one_demand = []" and b: "rejected_demands one_demand = []"
    and n: "length (demands one_demand) = 1"
    by (simp_all add: one_demand_def add_demand_def set_substrate_network_def init_def)
  have c: "fst (process_all_demands one_demand) = Inr 1"
    by code_simp
  have d: "fst (process_all_demands (snd (process_all_demands one_demand))) = Inr (1 / 2)"
    by code_simp
  show ?thesis
    using a b c d n process_twice_double_counts [OF a b c d] by simp
qed

subsection \<open>\<open>allocate_demand\<close>\<close>

lemma np_axis_less: "np_axis n j = Inr r \<Longrightarrow> r < n"
  by (auto simp: np_axis_def split: if_splits)

lemma np_axis_nonneg: "0 \<le> j \<Longrightarrow> j < int n \<Longrightarrow> np_axis n j = Inr (nat j)"
  by (simp add: np_axis_def)

lemma np_locate_in_range:
  "np_locate m i j = Inr (r, c) \<Longrightarrow> r < length m \<and> c < length (m ! r)"
  by (auto simp: np_locate_def split: sum.splits dest: np_axis_less)

lemma np_locate_shape:
  assumes "map length m' = map length m"
  shows "np_locate m' i j = np_locate m i j"
proof -
  have len: "length m' = length m"
    using assms by (metis length_map)
  have row: "length (m' ! r) = length (m ! r)" if "r < length m" for r
    using assms that len by (metis nth_map)
  show ?thesis
    unfolding np_locate_def len
    by (auto split: sum.splits dest: np_axis_less simp: row)
qed

lemma arc_cell_shape:
  assumes "map length m' = map length m"
  shows "arc_cell m' d mapping i = arc_cell m d mapping i"
  unfolding arc_cell_def np_locate_shape [OF assms] by (rule refl)

lemma arc_cell_in_range:
  "arc_cell m d mapping i = Inr (r, c, q) \<Longrightarrow> r < length m \<and> c < length (m ! r)"
  by (auto simp: arc_cell_def split: sum.splits dest: np_locate_in_range)

lemma arc_cell_requirement:
  "arc_cell m d mapping i = Inr (r, c, q) \<Longrightarrow> q = bandwidth d ! i"
  by (auto simp: arc_cell_def arc_def py_index_def split: sum.splits if_splits)

lemma arc_cell_labels:
  assumes "Suc i < length mapping" and "i < length (bandwidth d)"
    and "set mapping \<subseteq> {1..int (length net)}"
    and "\<forall>row\<in>set net. length row = length net"
  shows "arc_cell net d mapping i =
           Inr (nat (mapping ! i - 1), nat (mapping ! Suc i - 1), bandwidth d ! i)"
proof -
  have a: "mapping ! i \<in> {1..int (length net)}" and b: "mapping ! Suc i \<in> {1..int (length net)}"
    using assms(1,3) by (auto simp: subset_iff)
  have arc: "arc d mapping i = Inr (mapping ! i - 1, mapping ! Suc i - 1, bandwidth d ! i)"
    using assms(1,2) by (simp add: arc_def py_index_def)
  have r: "np_axis (length net) (mapping ! i - 1) = Inr (nat (mapping ! i - 1))"
    using a by (intro np_axis_nonneg) auto
  have "nat (mapping ! i - 1) < length net"
    using a by auto
  then have "length (net ! nat (mapping ! i - 1)) = length net"
    using assms(4) by simp
  then have c: "np_axis (length (net ! nat (mapping ! i - 1))) (mapping ! Suc i - 1)
                  = Inr (nat (mapping ! Suc i - 1))"
    using b by (intro np_axis_nonneg) auto
  show ?thesis
    by (simp add: arc_cell_def arc np_locate_def r c)
qed

lemma bandwidth_check_step:
  "bandwidth_check (Some m) d mapping (i # rest) =
     (case arc_cell m d mapping i of
        Inl e \<Rightarrow> Inl e
      | Inr (r, c, q) \<Rightarrow>
          if sint (m ! r ! c) < q then Inr False else bandwidth_check (Some m) d mapping rest)"
  by (simp add: arc_cell_def np_get_def split: sum.splits prod.splits)

lemma assign_resources_step:
  "assign_resources (Some m) d mapping (i # rest) =
     (case arc_cell m d mapping i of
        Inl e \<Rightarrow> (Some e, Some m)
      | Inr (r, c, q) \<Rightarrow>
          if in_int64 q
          then assign_resources (Some (m[r := (m ! r)[c := m ! r ! c - word_of_int q]])) d mapping rest
          else (Some OverflowError, Some m))"
  by (simp add: arc_cell_def np_isub_def split: sum.splits prod.splits)

lemma assign_resources_append:
  "assign_resources net d mapping (is @ rest) =
     (case assign_resources net d mapping is of
        (None, net') \<Rightarrow> assign_resources net' d mapping rest
      | (Some e, net') \<Rightarrow> (Some e, net'))"
  by (induction "is" arbitrary: net) (auto split: sum.splits prod.splits option.splits)

lemma bandwidth_check_True_iff:
  "bandwidth_check (Some m) d mapping is = Inr True \<longleftrightarrow> (\<forall>i\<in>set is. arc_fits m d mapping i)"
proof (induction "is")
  case Nil
  show ?case by simp
next
  case (Cons i rest)
  show ?case
    unfolding bandwidth_check_step
    using Cons.IH by (auto simp: arc_fits_def split: sum.splits)
qed

lemma bandwidth_check_False:
  assumes "\<forall>i\<in>set is. arc_resolves m d mapping i" and "\<exists>i\<in>set is. \<not> arc_fits m d mapping i"
  shows "bandwidth_check (Some m) d mapping is = Inr False"
  using assms
proof (induction "is")
  case Nil
  then show ?case by simp
next
  case (Cons i rest)
  show ?case
  proof (cases "arc_fits m d mapping i")
    case True
    with Cons.prems have "\<exists>i\<in>set rest. \<not> arc_fits m d mapping i" by auto
    with Cons have "bandwidth_check (Some m) d mapping rest = Inr False" by simp
    with True show ?thesis
      unfolding bandwidth_check_step by (auto simp: arc_fits_def split: sum.splits)
  next
    case False
    moreover from Cons.prems have "arc_resolves m d mapping i" by simp
    ultimately show ?thesis
      unfolding bandwidth_check_step
      by (auto simp: arc_fits_def arc_resolves_def split: sum.splits)
  qed
qed

lemma bandwidth_check_None:
  "bandwidth_check None d mapping is = Inr True \<Longrightarrow> is = []"
  by (cases "is") (auto simp: np_get_def split: sum.splits prod.splits)

lemma cell_update_shape:
  "map length (m[r := (m ! r)[c := v]]) = map length m"
  by (cases "r < length m") (auto simp: nth_list_update intro!: nth_equalityI)

lemma cell_update_nth:
  assumes "r0 < length m" "c0 < length (m ! r0)"
  shows "m[r0 := (m ! r0)[c0 := v]] ! r ! c = (if r = r0 \<and> c = c0 then v else m ! r ! c)"
  using assms by (cases "r = r0") (auto simp: nth_list_update)

lemma arc_fits_resolves: "arc_fits m d mapping i \<Longrightarrow> arc_resolves m d mapping i"
  by (auto simp: arc_fits_def arc_resolves_def split: sum.splits)

lemma arc_fits_below:
  fixes m :: ndarray
  assumes "arc_fits m d mapping i"
  shows "bandwidth d ! i < 2 ^ 63"
proof -
  from assms obtain r c q where cell: "arc_cell m d mapping i = Inr (r, c, q)"
    and q: "q \<le> sint (m ! r ! c)"
    by (auto simp: arc_fits_def split: sum.splits)
  have "sint (m ! r ! c) < 2 ^ 63"
    using sint_lt [of "m ! r ! c"] by simp
  with q arc_cell_requirement [OF cell] show ?thesis by simp
qed

lemma assign_resources_result:
  fixes m :: ndarray
  assumes "\<forall>i\<in>set is. arc_resolves m d mapping i" and "\<forall>i\<in>set is. in_int64 (bandwidth d ! i)"
  shows "\<exists>m'. assign_resources (Some m) d mapping is = (None, Some m') \<and>
              map length m' = map length m \<and>
              (\<forall>r c. m' ! r ! c
                       = m ! r ! c - word_of_int (sum_list (map (taken m d mapping r c) is)))"
  using assms
proof (induction "is" arbitrary: m)
  case Nil
  show ?case by simp
next
  case (Cons i rest)
  from Cons.prems obtain r0 c0 q where cell: "arc_cell m d mapping i = Inr (r0, c0, q)"
    by (auto simp: arc_resolves_def split: sum.splits)
  have q: "q = bandwidth d ! i"
    by (rule arc_cell_requirement [OF cell])
  with Cons.prems have range: "in_int64 q" by simp
  let ?m1 = "m[r0 := (m ! r0)[c0 := m ! r0 ! c0 - word_of_int q]]"
  have shape: "map length ?m1 = map length m"
    by (rule cell_update_shape)
  have same: "arc_cell ?m1 d mapping j = arc_cell m d mapping j" for j
    by (rule arc_cell_shape [OF shape])
  have "\<forall>j\<in>set rest. arc_resolves ?m1 d mapping j"
    using Cons.prems by (simp add: arc_resolves_def same)
  moreover have "\<forall>j\<in>set rest. in_int64 (bandwidth d ! j)"
    using Cons.prems by simp
  ultimately obtain m' where
    run: "assign_resources (Some ?m1) d mapping rest = (None, Some m')"
    and sh: "map length m' = map length ?m1"
    and val: "\<forall>r c. m' ! r ! c
                = ?m1 ! r ! c - word_of_int (sum_list (map (taken ?m1 d mapping r c) rest))"
    using Cons.IH [of ?m1] by blast
  have tk: "taken ?m1 d mapping r c = taken m d mapping r c" for r c
    by (rule ext) (simp add: taken_def same)
  have rng: "r0 < length m" "c0 < length (m ! r0)"
    using arc_cell_in_range [OF cell] by simp_all
  have first: "taken m d mapping r c i = (if r0 = r \<and> c0 = c then q else 0)" for r c
    by (simp add: taken_def cell)
  have cellval: "m' ! r ! c
      = m ! r ! c - word_of_int (sum_list (map (taken m d mapping r c) (i # rest)))" for r c
  proof -
    have "m' ! r ! c = ?m1 ! r ! c - word_of_int (sum_list (map (taken ?m1 d mapping r c) rest))"
      using val by (elim allE)
    then have "m' ! r ! c = ?m1 ! r ! c - word_of_int (sum_list (map (taken m d mapping r c) rest))"
      by (simp only: tk)
    moreover have "?m1 ! r ! c
        = (if r = r0 \<and> c = c0 then m ! r0 ! c0 - word_of_int q else m ! r ! c)"
      by (rule cell_update_nth [OF rng])
    ultimately show ?thesis
      by (cases "r = r0 \<and> c = c0") (auto simp: first)
  qed
  have go: "assign_resources (Some m) d mapping (i # rest) = (None, Some m')"
    unfolding assign_resources_step by (simp add: cell run range)
  have sh': "map length m' = map length m"
    using sh shape by simp
  show ?case
  proof (intro exI conjI allI)
    show "assign_resources (Some m) d mapping (i # rest) = (None, Some m')" by (rule go)
    show "map length m' = map length m" by (rule sh')
    show "m' ! r ! c
        = m ! r ! c - word_of_int (sum_list (map (taken m d mapping r c) (i # rest)))" for r c
      by (rule cellval)
  qed
qed

lemma decremented_eq:
  assumes "map length m' = map length m"
    and "\<forall>r c. m' ! r ! c = m ! r ! c - word_of_int (consumed m d mapping n r c)"
  shows "m' = decremented m d mapping n"
proof -
  have len: "length m' = length m"
    using assms(1) by (metis length_map)
  have row: "length (m' ! r) = length (m ! r)" if "r < length m" for r
    using assms(1) that len by (metis nth_map)
  show ?thesis
    unfolding decremented_def
  proof (rule nth_equalityI)
    show "length m' = length (map (\<lambda>r. map (\<lambda>c. m ! r ! c - word_of_int (consumed m d mapping n r c))
                                [0..<length (m ! r)]) [0..<length m])"
      by (simp add: len)
  next
    fix r assume "r < length m'"
    then have r: "r < length m" by (simp add: len)
    have "m' ! r = map (\<lambda>c. m ! r ! c - word_of_int (consumed m d mapping n r c))
                     [0..<length (m ! r)]"
      by (rule nth_equalityI) (simp_all add: row [OF r] assms(2))
    with r show "m' ! r = map (\<lambda>r. map (\<lambda>c. m ! r ! c - word_of_int (consumed m d mapping n r c))
                                [0..<length (m ! r)]) [0..<length m] ! r"
      by simp
  qed
qed

lemma assign_resources_prefix:
  fixes m :: ndarray
  assumes "\<forall>i<n. arc_resolves m d mapping i" and "\<forall>i<n. in_int64 (bandwidth d ! i)"
  shows "assign_resources (Some m) d mapping [0..<n] = (None, Some (decremented m d mapping n))"
proof -
  from assms have "\<forall>i\<in>set [0..<n]. arc_resolves m d mapping i"
    "\<forall>i\<in>set [0..<n]. in_int64 (bandwidth d ! i)"
    by simp_all
  from assign_resources_result [OF this] obtain m' where
    run: "assign_resources (Some m) d mapping [0..<n] = (None, Some m')"
    and sh: "map length m' = map length m"
    and val: "\<forall>r c. m' ! r ! c
                = m ! r ! c - word_of_int (sum_list (map (taken m d mapping r c) [0..<n]))"
    by blast
  have "m' = decremented m d mapping n"
    using sh val by (intro decremented_eq) (simp_all add: consumed_def)
  with run show ?thesis by simp
qed

lemma decremented_shape:
  "length (decremented m d mapping n) = length m"
  "r < length m \<Longrightarrow> length (decremented m d mapping n ! r) = length (m ! r)"
  by (simp_all add: decremented_def)

lemma decremented_same_shape:
  "map length (decremented m d mapping n) = map length m"
  by (rule nth_equalityI) (simp_all add: decremented_shape)

lemma decremented_nth:
  assumes "r < length m" "c < length (m ! r)"
  shows "decremented m d mapping n ! r ! c = m ! r ! c - word_of_int (consumed m d mapping n r c)"
  using assms by (simp add: decremented_def)

lemma allocate_demand_success:
  assumes "substrate_network p = Some m"
    and "\<forall>i<length (path d) - 1. arc_fits m d mapping i \<and> - (2 ^ 63) \<le> bandwidth d ! i"
  shows "allocate_demand p d mapping =
           (Inr True, p\<lparr>substrate_network := Some (decremented m d mapping (length (path d) - 1)),
                        allocations := (allocations p)(demand_id d \<mapsto> mapping)\<rparr>)"
proof -
  let ?n = "length (path d) - 1"
  have fits: "\<forall>i\<in>set [0..<?n]. arc_fits m d mapping i"
    using assms(2) by simp
  then have chk: "bandwidth_check (Some m) d mapping [0..<?n] = Inr True"
    by (simp only: bandwidth_check_True_iff)
  have res: "\<forall>i<?n. arc_resolves m d mapping i"
    using assms(2) by (blast intro: arc_fits_resolves)
  have rng: "\<forall>i<?n. in_int64 (bandwidth d ! i)"
    using assms(2) arc_fits_below [of m d mapping] by (auto simp: in_int64_def)
  from chk assign_resources_prefix [OF res rng] assms(1) show ?thesis
    by (simp add: allocate_demand_def Let_def)
qed

lemma allocate_demand_overflow:
  assumes "substrate_network p = Some m"
    and "\<forall>i<length (path d) - 1. arc_fits m d mapping i"
    and "j < length (path d) - 1" and "bandwidth d ! j < - (2 ^ 63)"
    and "\<forall>i<j. - (2 ^ 63) \<le> bandwidth d ! i"
  shows "allocate_demand p d mapping =
           (Inl OverflowError, p\<lparr>substrate_network := Some (decremented m d mapping j)\<rparr>)"
proof -
  let ?n = "length (path d) - 1"
  have fits: "\<forall>i\<in>set [0..<?n]. arc_fits m d mapping i"
    using assms(2) by simp
  then have chk: "bandwidth_check (Some m) d mapping [0..<?n] = Inr True"
    by (simp only: bandwidth_check_True_iff)
  have res: "\<forall>i<j. arc_resolves m d mapping i"
    using assms(2,3) by (auto intro: arc_fits_resolves)
  have rng: "\<forall>i<j. in_int64 (bandwidth d ! i)"
    using assms(2,3,5) arc_fits_below [of m d mapping] by (auto simp: in_int64_def)
  have before: "assign_resources (Some m) d mapping [0..<j]
                  = (None, Some (decremented m d mapping j))"
    by (rule assign_resources_prefix [OF res rng])
  from assms(2,3) have "arc_fits m d mapping j" by simp
  then obtain r c q where cell: "arc_cell m d mapping j = Inr (r, c, q)"
    by (auto simp: arc_fits_def split: sum.splits)
  have "arc_cell (decremented m d mapping j) d mapping j = Inr (r, c, q)"
    using arc_cell_shape [OF decremented_same_shape] cell by simp
  moreover have "\<not> in_int64 q"
    using arc_cell_requirement [OF cell] assms(4) by (simp add: in_int64_def)
  ultimately have at: "assign_resources (Some (decremented m d mapping j)) d mapping
                          (j # [Suc j..<?n])
                        = (Some OverflowError, Some (decremented m d mapping j))"
    unfolding assign_resources_step by simp
  have "[0..<?n] = [0..<j] @ j # [Suc j..<?n]"
    using assms(3) by (metis less_imp_le_nat upt_add_eq_append upt_conv_Cons le_add_diff_inverse zero_le plus_nat.add_0)
  then have "assign_resources (Some m) d mapping [0..<?n]
               = (Some OverflowError, Some (decremented m d mapping j))"
    using assign_resources_append [of "Some m" d mapping "[0..<j]" "j # [Suc j..<?n]"] before at
    by simp
  with chk assms(1) show ?thesis
    by (simp add: allocate_demand_def Let_def)
qed

lemma allocate_demand_unfit:
  assumes "substrate_network p = Some m"
    and "\<not> (\<forall>i<length (path d) - 1. arc_fits m d mapping i)"
  shows "snd (allocate_demand p d mapping) = p \<and> fst (allocate_demand p d mapping) \<noteq> Inr True \<and>
         fst (allocate_demand p d mapping) \<noteq> Inl OverflowError"
proof -
  have "bandwidth_check (Some m) d mapping [0..<length (path d) - 1] \<noteq> Inr True"
    using assms(2) by (auto simp: bandwidth_check_True_iff)
  moreover have "bandwidth_check net d mapping is \<noteq> Inl OverflowError" for net "is"
    by (induction "is")
      (auto simp: arc_def py_index_def np_get_def np_locate_def np_axis_def
        split: sum.splits prod.splits option.splits if_splits)
  ultimately show ?thesis
    using assms(1)
    by (cases "bandwidth_check (Some m) d mapping [0..<length (path d) - 1]")
      (auto simp: allocate_demand_def Let_def split: bool.splits)
qed

lemma allocate_demand_True_iff:
  assumes "substrate_network p = Some m"
  shows "fst (allocate_demand p d mapping) = Inr True
           \<longleftrightarrow> (\<forall>i<length (path d) - 1. arc_fits m d mapping i \<and> - (2 ^ 63) \<le> bandwidth d ! i)"
proof
  assume "\<forall>i<length (path d) - 1. arc_fits m d mapping i \<and> - (2 ^ 63) \<le> bandwidth d ! i"
  then show "fst (allocate_demand p d mapping) = Inr True"
    by (simp add: allocate_demand_success [OF assms])
next
  assume t: "fst (allocate_demand p d mapping) = Inr True"
  then have fits: "\<forall>i<length (path d) - 1. arc_fits m d mapping i"
    using allocate_demand_unfit [OF assms, of d mapping] by blast
  have "- (2 ^ 63) \<le> bandwidth d ! i" if i: "i < length (path d) - 1" for i
  proof (rule ccontr)
    assume "\<not> - (2 ^ 63) \<le> bandwidth d ! i"
    with i have "\<exists>j. j < length (path d) - 1 \<and> bandwidth d ! j < - (2 ^ 63)"
      by (intro exI [of _ i]) simp
    then obtain j where j: "j < length (path d) - 1 \<and> bandwidth d ! j < - (2 ^ 63)"
      and least: "\<forall>i<j. \<not> (i < length (path d) - 1 \<and> bandwidth d ! i < - (2 ^ 63))"
      using exists_least_iff [of "\<lambda>j. j < length (path d) - 1 \<and> bandwidth d ! j < - (2 ^ 63)"]
      by blast
    from j least have "\<forall>i<j. - (2 ^ 63) \<le> bandwidth d ! i"
      by (metis less_trans not_less)
    from allocate_demand_overflow [OF assms fits _ _ this] j t show False
      by simp
  qed
  with fits show "\<forall>i<length (path d) - 1. arc_fits m d mapping i \<and> - (2 ^ 63) \<le> bandwidth d ! i"
    by simp
qed

lemma allocate_demand_unchanged:
  assumes "fst (allocate_demand p d mapping) \<noteq> Inr True"
    and "fst (allocate_demand p d mapping) \<noteq> Inl OverflowError"
  shows "snd (allocate_demand p d mapping) = p"
proof (cases "substrate_network p")
  case None
  show ?thesis
  proof (cases "bandwidth_check None d mapping [0..<length (path d) - 1]")
    case (Inl e)
    with None show ?thesis by (simp add: allocate_demand_def Let_def)
  next
    case (Inr b)
    show ?thesis
    proof (cases b)
      case False
      with Inr None show ?thesis by (simp add: allocate_demand_def Let_def)
    next
      case True
      from Inr True have "[0..<length (path d) - 1] = []"
        by (intro bandwidth_check_None [of d mapping]) simp
      with Inr True None assms show ?thesis
        by (simp add: allocate_demand_def Let_def)
    qed
  qed
next
  case (Some m)
  show ?thesis
  proof (cases "\<forall>i<length (path d) - 1. arc_fits m d mapping i")
    case False
    then show ?thesis
      using allocate_demand_unfit [OF Some] by blast
  next
    case True
    show ?thesis
    proof (cases "\<forall>i<length (path d) - 1. - (2 ^ 63) \<le> bandwidth d ! i")
      case all: True
      with True assms(1) allocate_demand_True_iff [OF Some, of d mapping] show ?thesis
        by blast
    next
      case False
      then obtain j where j: "j < length (path d) - 1 \<and> bandwidth d ! j < - (2 ^ 63)"
        and least: "\<forall>i<j. \<not> (i < length (path d) - 1 \<and> bandwidth d ! i < - (2 ^ 63))"
        using exists_least_iff [of "\<lambda>j. j < length (path d) - 1 \<and> bandwidth d ! j < - (2 ^ 63)"]
        by (metis not_less)
      from j least have "\<forall>i<j. - (2 ^ 63) \<le> bandwidth d ! i"
        by (metis less_trans not_less)
      from allocate_demand_overflow [OF Some True _ _ this] j assms(2) show ?thesis
        by simp
    qed
  qed
qed

lemma allocate_demand_False:
  assumes "substrate_network p = Some m"
    and "\<forall>i<length (path d) - 1. arc_resolves m d mapping i"
    and "\<exists>i<length (path d) - 1. \<not> arc_fits m d mapping i"
  shows "allocate_demand p d mapping = (Inr False, p)"
proof -
  have "bandwidth_check (Some m) d mapping [0..<length (path d) - 1] = Inr False"
    using assms(2,3) by (intro bandwidth_check_False) auto
  with assms(1) show ?thesis
    by (simp add: allocate_demand_def Let_def)
qed

lemma sum_list_single_index:
  fixes x :: int
  shows "sum_list (map (\<lambda>j. if j = i then x else 0) [0..<n]) = (if i < n then x else 0)"
  by (induction n) auto

lemma sint_decrement:
  fixes v :: "64 word"
  assumes "0 \<le> q" and "q \<le> sint v"
  shows "sint (v - word_of_int q) = sint v - q"
proof -
  have hi: "sint v < 2 ^ 63" and lo: "- (2 ^ 63) \<le> sint v"
    using sint_lt [of v] sint_ge [of v] by simp_all
  have "sint (word_of_int q :: 64 word) = signed_take_bit 63 q"
    by (simp add: sint_sbintrunc')
  also have "\<dots> = q"
    using assms hi by (intro signed_take_bit_int_eq_self) simp_all
  finally have q: "sint (word_of_int q :: 64 word) = q" .
  have "sint (v - word_of_int q) = signed_take_bit 63 (sint v - sint (word_of_int q :: 64 word))"
    by (simp add: sint_word_ariths)
  also have "\<dots> = signed_take_bit 63 (sint v - q)"
    by (simp only: q)
  also have "\<dots> = sint v - q"
    using assms hi lo by (intro signed_take_bit_int_eq_self) simp_all
  finally show ?thesis .
qed

lemma labelled_cells:
  fixes m :: ndarray
  assumes sq: "\<forall>row\<in>set m. length row = length m"
    and lab: "set mapping \<subseteq> {1..int (length m)}"
    and dist: "distinct mapping"
    and len: "length mapping = length (path d)"
    and bw: "length (path d) - 1 \<le> length (bandwidth d)"
  shows "\<forall>i<length (path d) - 1.
           arc_cell m d mapping i
             = Inr (nat (mapping ! i - 1), nat (mapping ! Suc i - 1), bandwidth d ! i)"
    and "\<forall>i<length (path d) - 1.
           arc_fits m d mapping i
             \<longleftrightarrow> bandwidth d ! i \<le> sint (m ! nat (mapping ! i - 1) ! nat (mapping ! Suc i - 1))"
    and "\<forall>i<length (path d) - 1.
           decremented m d mapping (length (path d) - 1)
               ! nat (mapping ! i - 1) ! nat (mapping ! Suc i - 1)
             = m ! nat (mapping ! i - 1) ! nat (mapping ! Suc i - 1) - word_of_int (bandwidth d ! i)"
    and "\<forall>r<length m. \<forall>c<length m.
           (\<forall>i<length (path d) - 1.
              \<not> (r = nat (mapping ! i - 1) \<and> c = nat (mapping ! Suc i - 1)))
             \<longrightarrow> decremented m d mapping (length (path d) - 1) ! r ! c = m ! r ! c"
proof -
  let ?n = "length (path d) - 1"
  have cell: "arc_cell m d mapping i
                = Inr (nat (mapping ! i - 1), nat (mapping ! Suc i - 1), bandwidth d ! i)"
    if "i < ?n" for i
    using that len bw sq lab by (intro arc_cell_labels) auto
  have tk: "taken m d mapping r c i
              = (if nat (mapping ! i - 1) = r \<and> nat (mapping ! Suc i - 1) = c
                 then bandwidth d ! i else 0)"
    if "i < ?n" for i r c
    by (simp add: taken_def cell [OF that])
  have inj: "i = j" if "i < ?n" "j < ?n" "nat (mapping ! i - 1) = nat (mapping ! j - 1)" for i j
  proof -
    from that len have i: "i < length mapping" and j: "j < length mapping" by simp_all
    from i have "mapping ! i \<in> set mapping" by (rule nth_mem)
    with lab have "mapping ! i \<in> {1..int (length m)}" by (rule subsetD)
    then have li: "1 \<le> mapping ! i" by simp
    from j have "mapping ! j \<in> set mapping" by (rule nth_mem)
    with lab have "mapping ! j \<in> {1..int (length m)}" by (rule subsetD)
    then have "1 \<le> mapping ! j" by simp
    with li that(3) have "mapping ! i = mapping ! j" by auto
    with dist i j show ?thesis by (simp add: nth_eq_iff_index_eq)
  qed
  have rows: "length (m ! r) = length m" if "r < length m" for r
    using sq that by simp
  show c1: "\<forall>i<?n. arc_cell m d mapping i
             = Inr (nat (mapping ! i - 1), nat (mapping ! Suc i - 1), bandwidth d ! i)"
    using cell by blast
  show "\<forall>i<?n. arc_fits m d mapping i
             \<longleftrightarrow> bandwidth d ! i \<le> sint (m ! nat (mapping ! i - 1) ! nat (mapping ! Suc i - 1))"
    by (simp add: arc_fits_def cell)
  show "\<forall>i<?n. decremented m d mapping ?n ! nat (mapping ! i - 1) ! nat (mapping ! Suc i - 1)
             = m ! nat (mapping ! i - 1) ! nat (mapping ! Suc i - 1) - word_of_int (bandwidth d ! i)"
  proof (intro allI impI)
    fix i assume i: "i < ?n"
    let ?r = "nat (mapping ! i - 1)" and ?c = "nat (mapping ! Suc i - 1)"
    have rng: "?r < length m" "?c < length (m ! ?r)"
      using arc_cell_in_range [OF cell [OF i]] by simp_all
    have "map (taken m d mapping ?r ?c) [0..<?n]
            = map (\<lambda>j. if j = i then bandwidth d ! i else 0) [0..<?n]"
    proof (rule map_cong [OF refl])
      fix j assume "j \<in> set [0..<?n]"
      then have j: "j < ?n" by simp
      show "taken m d mapping ?r ?c j = (if j = i then bandwidth d ! i else 0)"
        using inj [OF j i] by (auto simp: tk [OF j])
    qed
    then have "consumed m d mapping ?n ?r ?c = bandwidth d ! i"
      using i by (simp only: consumed_def sum_list_single_index) simp
    then show "decremented m d mapping ?n ! ?r ! ?c = m ! ?r ! ?c - word_of_int (bandwidth d ! i)"
      by (simp add: decremented_nth [OF rng])
  qed
  show "\<forall>r<length m. \<forall>c<length m.
           (\<forall>i<?n. \<not> (r = nat (mapping ! i - 1) \<and> c = nat (mapping ! Suc i - 1)))
             \<longrightarrow> decremented m d mapping ?n ! r ! c = m ! r ! c"
  proof (intro allI impI)
    fix r c assume r: "r < length m" and c: "c < length m"
      and off: "\<forall>i<?n. \<not> (r = nat (mapping ! i - 1) \<and> c = nat (mapping ! Suc i - 1))"
    have "map (taken m d mapping r c) [0..<?n] = map (\<lambda>j. 0) [0..<?n]"
    proof (rule map_cong [OF refl])
      fix j assume "j \<in> set [0..<?n]"
      then have j: "j < ?n" by simp
      with off show "taken m d mapping r c j = 0"
        by (auto simp: tk [OF j])
    qed
    then have "sum_list (map (taken m d mapping r c) [0..<?n])
                 = sum_list (map (\<lambda>j. 0 :: int) [0..<?n])"
      by (rule arg_cong)
    then have "consumed m d mapping ?n r c = 0"
      by (simp only: consumed_def sum_list_0)
    moreover have "c < length (m ! r)"
      using c rows [OF r] by simp
    ultimately show "decremented m d mapping ?n ! r ! c = m ! r ! c"
      using r by (simp add: decremented_nth)
  qed
qed

theorem allocate_demand_overflow_counterexample:
  "arc_fits three_nodes overflow_demand [1, 2, 3] 0 \<and>
   arc_fits three_nodes overflow_demand [1, 2, 3] 1 \<and>
   fst (allocate_demand three_nodes_set overflow_demand [1, 2, 3]) = Inl OverflowError \<and>
   substrate_network (snd (allocate_demand three_nodes_set overflow_demand [1, 2, 3]))
     = Some [[0, 4, 0], [0, 0, 5], [0, 0, 0]] \<and>
   allocations (snd (allocate_demand three_nodes_set overflow_demand [1, 2, 3])) 1 = None \<and>
   arc_fits full_arc grow_demand [1, 2] 0 \<and>
   fst (allocate_demand full_arc_set grow_demand [1, 2]) = Inr True \<and>
   substrate_network (snd (allocate_demand full_arc_set grow_demand [1, 2]))
     = Some [[0, - 9223372036854775808], [0, 0]] \<and>
   sint (9223372036854775807 :: 64 word) - (- 1) = 9223372036854775808"
  by code_simp

text \<open>
  Claim C7, as the code has it. \<open>allocate_demand\<close> checks every consecutive arc of the
  mapping against the current residual matrix before it changes anything. When it
  returns \<open>False\<close> or raises in the check, the processor is exactly as before: no
  residual entry and no allocation has changed. On a processor with a substrate, when
  every arc resolves and one does not fit it returns \<open>False\<close>; it returns \<open>True\<close>
  exactly when every arc fits and no requirement lies below \<open>- 2^63\<close>, and then the
  processor it leaves differs from the old one only in the residual matrix, where every
  cell has lost the requirements of the arcs that land on it in 64-bit arithmetic, and
  in the allocations, where the demand's id now maps to the mapping. When every arc fits
  and arc \<open>j\<close> is the first whose requirement lies below \<open>- 2^63\<close>, the call raises
  \<open>OverflowError\<close> with the arcs before \<open>j\<close> already taken off and nothing recorded.
  For a mapping of pairwise distinct labels from \<open>1..N\<close> on a square substrate the cell
  of arc \<open>i\<close> is row \<open>mapping[i] - 1\<close>, column \<open>mapping[i+1] - 1\<close>; it loses
  \<open>bandwidth[i]\<close>, every other cell keeps its value, and a requirement between 0 and
  the capacity is taken off exactly.
\<close>

theorem allocate_demand_contract:
  fixes m :: ndarray
  shows
  "(fst (allocate_demand p d mapping) \<noteq> Inr True \<and>
    fst (allocate_demand p d mapping) \<noteq> Inl OverflowError
      \<longrightarrow> snd (allocate_demand p d mapping) = p) \<and>
   (substrate_network p = Some m \<longrightarrow>
      (fst (allocate_demand p d mapping) = Inr True
         \<longleftrightarrow> (\<forall>i<length (path d) - 1.
                arc_fits m d mapping i \<and> - (2 ^ 63) \<le> bandwidth d ! i)) \<and>
      ((\<forall>i<length (path d) - 1. arc_resolves m d mapping i) \<and>
       (\<exists>i<length (path d) - 1. \<not> arc_fits m d mapping i)
         \<longrightarrow> allocate_demand p d mapping = (Inr False, p)) \<and>
      ((\<forall>i<length (path d) - 1. arc_fits m d mapping i \<and> - (2 ^ 63) \<le> bandwidth d ! i)
         \<longrightarrow> allocate_demand p d mapping =
               (Inr True,
                p\<lparr>substrate_network := Some (decremented m d mapping (length (path d) - 1)),
                  allocations := (allocations p)(demand_id d \<mapsto> mapping)\<rparr>)) \<and>
      ((\<forall>i<length (path d) - 1. arc_fits m d mapping i) \<and>
       j < length (path d) - 1 \<and> bandwidth d ! j < - (2 ^ 63) \<and>
       (\<forall>i<j. - (2 ^ 63) \<le> bandwidth d ! i)
         \<longrightarrow> allocate_demand p d mapping =
               (Inl OverflowError, p\<lparr>substrate_network := Some (decremented m d mapping j)\<rparr>))) \<and>
   ((\<forall>row\<in>set m. length row = length m) \<and> set mapping \<subseteq> {1..int (length m)} \<and>
    distinct mapping \<and> length mapping = length (path d) \<and>
    length (path d) - 1 \<le> length (bandwidth d) \<longrightarrow>
      (\<forall>i<length (path d) - 1.
         arc_cell m d mapping i
           = Inr (nat (mapping ! i - 1), nat (mapping ! Suc i - 1), bandwidth d ! i)) \<and>
      (\<forall>i<length (path d) - 1.
         arc_fits m d mapping i
           \<longleftrightarrow> bandwidth d ! i \<le> sint (m ! nat (mapping ! i - 1) ! nat (mapping ! Suc i - 1))) \<and>
      map length (decremented m d mapping (length (path d) - 1)) = map length m \<and>
      (\<forall>i<length (path d) - 1.
         decremented m d mapping (length (path d) - 1)
             ! nat (mapping ! i - 1) ! nat (mapping ! Suc i - 1)
           = m ! nat (mapping ! i - 1) ! nat (mapping ! Suc i - 1)
               - word_of_int (bandwidth d ! i)) \<and>
      (\<forall>r<length m. \<forall>c<length m.
         (\<forall>i<length (path d) - 1.
            \<not> (r = nat (mapping ! i - 1) \<and> c = nat (mapping ! Suc i - 1)))
           \<longrightarrow> decremented m d mapping (length (path d) - 1) ! r ! c = m ! r ! c) \<and>
      (\<forall>i<length (path d) - 1.
         0 \<le> bandwidth d ! i \<and>
         bandwidth d ! i \<le> sint (m ! nat (mapping ! i - 1) ! nat (mapping ! Suc i - 1))
           \<longrightarrow> sint (decremented m d mapping (length (path d) - 1)
                        ! nat (mapping ! i - 1) ! nat (mapping ! Suc i - 1))
                 = sint (m ! nat (mapping ! i - 1) ! nat (mapping ! Suc i - 1))
                     - bandwidth d ! i))"
proof (intro conjI impI)
  assume "fst (allocate_demand p d mapping) \<noteq> Inr True \<and>
    fst (allocate_demand p d mapping) \<noteq> Inl OverflowError"
  then show "snd (allocate_demand p d mapping) = p"
    using allocate_demand_unchanged by blast
next
  assume "substrate_network p = Some m"
  then show "fst (allocate_demand p d mapping) = Inr True
         \<longleftrightarrow> (\<forall>i<length (path d) - 1.
                arc_fits m d mapping i \<and> - (2 ^ 63) \<le> bandwidth d ! i)"
    by (rule allocate_demand_True_iff)
next
  assume "substrate_network p = Some m"
    and "(\<forall>i<length (path d) - 1. arc_resolves m d mapping i) \<and>
       (\<exists>i<length (path d) - 1. \<not> arc_fits m d mapping i)"
  then show "allocate_demand p d mapping = (Inr False, p)"
    using allocate_demand_False by blast
next
  assume "substrate_network p = Some m"
    and "\<forall>i<length (path d) - 1. arc_fits m d mapping i \<and> - (2 ^ 63) \<le> bandwidth d ! i"
  then show "allocate_demand p d mapping =
               (Inr True,
                p\<lparr>substrate_network := Some (decremented m d mapping (length (path d) - 1)),
                  allocations := (allocations p)(demand_id d \<mapsto> mapping)\<rparr>)"
    by (rule allocate_demand_success)
next
  assume "substrate_network p = Some m"
    and "(\<forall>i<length (path d) - 1. arc_fits m d mapping i) \<and>
       j < length (path d) - 1 \<and> bandwidth d ! j < - (2 ^ 63) \<and>
       (\<forall>i<j. - (2 ^ 63) \<le> bandwidth d ! i)"
  then show "allocate_demand p d mapping =
               (Inl OverflowError, p\<lparr>substrate_network := Some (decremented m d mapping j)\<rparr>)"
    using allocate_demand_overflow [of p m d mapping j] by blast
next
  assume h: "(\<forall>row\<in>set m. length row = length m) \<and> set mapping \<subseteq> {1..int (length m)} \<and>
    distinct mapping \<and> length mapping = length (path d) \<and>
    length (path d) - 1 \<le> length (bandwidth d)"
  then have sq: "\<forall>row\<in>set m. length row = length m"
    and lab: "set mapping \<subseteq> {1..int (length m)}" and dist: "distinct mapping"
    and len: "length mapping = length (path d)"
    and bw: "length (path d) - 1 \<le> length (bandwidth d)"
    by simp_all
  note cells = labelled_cells [OF sq lab dist len bw]
  show "\<forall>i<length (path d) - 1.
         arc_cell m d mapping i
           = Inr (nat (mapping ! i - 1), nat (mapping ! Suc i - 1), bandwidth d ! i)"
    by (rule cells(1))
  show "\<forall>i<length (path d) - 1.
         arc_fits m d mapping i
           \<longleftrightarrow> bandwidth d ! i \<le> sint (m ! nat (mapping ! i - 1) ! nat (mapping ! Suc i - 1))"
    by (rule cells(2))
  show "map length (decremented m d mapping (length (path d) - 1)) = map length m"
    by (rule decremented_same_shape)
  show "\<forall>i<length (path d) - 1.
         decremented m d mapping (length (path d) - 1)
             ! nat (mapping ! i - 1) ! nat (mapping ! Suc i - 1)
           = m ! nat (mapping ! i - 1) ! nat (mapping ! Suc i - 1)
               - word_of_int (bandwidth d ! i)"
    by (rule cells(3))
  show "\<forall>r<length m. \<forall>c<length m.
         (\<forall>i<length (path d) - 1.
            \<not> (r = nat (mapping ! i - 1) \<and> c = nat (mapping ! Suc i - 1)))
           \<longrightarrow> decremented m d mapping (length (path d) - 1) ! r ! c = m ! r ! c"
    by (rule cells(4))
  show "\<forall>i<length (path d) - 1.
         0 \<le> bandwidth d ! i \<and>
         bandwidth d ! i \<le> sint (m ! nat (mapping ! i - 1) ! nat (mapping ! Suc i - 1))
           \<longrightarrow> sint (decremented m d mapping (length (path d) - 1)
                        ! nat (mapping ! i - 1) ! nat (mapping ! Suc i - 1))
                 = sint (m ! nat (mapping ! i - 1) ! nat (mapping ! Suc i - 1))
                     - bandwidth d ! i"
    using cells(3) sint_decrement by simp
qed

theorem allocate_demand_contract_witness:
  "substrate_network scenario = Some substrate_example \<and>
   length (path demand_B) - 1 = 3 \<and> bandwidth demand_B = [4, 6, 2] \<and>
   arc_fits substrate_example demand_B [1, 2, 3, 5] 0 \<and>
   arc_fits substrate_example demand_B [1, 2, 3, 5] 1 \<and>
   arc_fits substrate_example demand_B [1, 2, 3, 5] 2 \<and>
   allocate_demand scenario demand_B [1, 2, 3, 5] =
     (Inr True, scenario\<lparr>substrate_network := Some residual_example,
                         allocations := (allocations scenario)(2 \<mapsto> [1, 2, 3, 5])\<rparr>) \<and>
   map length substrate_example = [5, 5, 5, 5, 5] \<and>
   distinct [1, 2, 3, 5 :: int] \<and>
   set [1, 2, 3, 5] \<subseteq> {1..int (length substrate_example)} \<and>
   arc_cell substrate_example demand_B [1, 2, 3, 5] 1 = Inr (1, 2, 6) \<and>
   sint (substrate_example ! 1 ! 2) = 10 \<and>
   sint (decremented substrate_example demand_B [1, 2, 3, 5] 3 ! 1 ! 2) = 4 \<and>
   substrate_network starved = Some residual_example \<and>
   length (path demand_A) - 1 = 3 \<and>
   arc_resolves residual_example demand_A [1, 2, 3, 5] 0 \<and>
   arc_resolves residual_example demand_A [1, 2, 3, 5] 1 \<and>
   arc_resolves residual_example demand_A [1, 2, 3, 5] 2 \<and>
   \<not> arc_fits residual_example demand_A [1, 2, 3, 5] 1 \<and>
   allocate_demand starved demand_A [1, 2, 3, 5] = (Inr False, starved) \<and>
   substrate_network three_nodes_set = Some three_nodes \<and>
   length (path overflow_demand) - 1 = 2 \<and>
   arc_fits three_nodes overflow_demand [1, 2, 3] 0 \<and>
   arc_fits three_nodes overflow_demand [1, 2, 3] 1 \<and>
   - (2 ^ 63) \<le> bandwidth overflow_demand ! 0 \<and>
   bandwidth overflow_demand ! 1 < - (2 ^ 63) \<and>
   allocate_demand three_nodes_set overflow_demand [1, 2, 3] =
     (Inl OverflowError,
      three_nodes_set\<lparr>substrate_network := Some [[0, 4, 0], [0, 0, 5], [0, 0, 0]]\<rparr>)"
proof -
  have three: "i < 3 \<longleftrightarrow> i = 0 \<or> i = 1 \<or> i = 2" for i :: nat
    by auto
  have two: "i < 2 \<longleftrightarrow> i = 0 \<or> i = 1" for i :: nat
    by auto
  have s: "substrate_network scenario = Some substrate_example"
    by (simp add: scenario_def add_demand_def set_substrate_network_def)
  have kB: "length (path demand_B) - 1 = 3" and kA: "length (path demand_A) - 1 = 3"
    and bB: "bandwidth demand_B = [4, 6, 2]"
    by (simp_all add: demand_A_def demand_B_def)
  have f0: "arc_fits substrate_example demand_B [1, 2, 3, 5] 0"
    and f1: "arc_fits substrate_example demand_B [1, 2, 3, 5] 1"
    and f2: "arc_fits substrate_example demand_B [1, 2, 3, 5] 2"
    by code_simp+
  have fits: "\<forall>i<length (path demand_B) - 1.
      arc_fits substrate_example demand_B [1, 2, 3, 5] i \<and> - (2 ^ 63) \<le> bandwidth demand_B ! i"
    unfolding kB bB using f0 f1 f2 by (simp add: three)
  have dec: "decremented substrate_example demand_B [1, 2, 3, 5] 3 = residual_example"
    by code_simp
  have idB: "demand_id demand_B = 2"
    by (simp add: demand_B_def)
  have ok: "allocate_demand scenario demand_B [1, 2, 3, 5] =
     (Inr True, scenario\<lparr>substrate_network := Some residual_example,
                         allocations := (allocations scenario)(2 \<mapsto> [1, 2, 3, 5])\<rparr>)"
    using allocate_demand_contract [of scenario demand_B "[1, 2, 3, 5]" substrate_example 0] s fits
    by (simp only: dec idB kB)
  have shape: "map length substrate_example = [5, 5, 5, 5, 5]"
    by (simp add: substrate_example_def)
  have sq: "\<forall>row\<in>set substrate_example. length row = length substrate_example"
    by (simp add: substrate_example_def)
  have di: "distinct [1, 2, 3, 5 :: int]"
    by simp
  have lab: "set [1, 2, 3, 5] \<subseteq> {1..int (length substrate_example)}"
    by (simp add: substrate_example_def)
  have lens: "length [1, 2, 3, 5 :: int] = length (path demand_B)"
    "length (path demand_B) - 1 \<le> length (bandwidth demand_B)"
    by (simp_all add: demand_B_def)
  have cap: "sint (substrate_example ! 1 ! 2) = 10"
    by (simp add: substrate_example_def)
  from allocate_demand_contract [of scenario demand_B "[1, 2, 3, 5]" substrate_example 0]
    sq lab di lens
  have lc: "\<forall>i<length (path demand_B) - 1.
         arc_cell substrate_example demand_B [1, 2, 3, 5] i
           = Inr (nat ([1, 2, 3, 5] ! i - 1), nat ([1, 2, 3, 5] ! Suc i - 1), bandwidth demand_B ! i)"
    and le: "\<forall>i<length (path demand_B) - 1.
         0 \<le> bandwidth demand_B ! i \<and>
         bandwidth demand_B ! i
           \<le> sint (substrate_example ! nat ([1, 2, 3, 5] ! i - 1) ! nat ([1, 2, 3, 5] ! Suc i - 1))
           \<longrightarrow> sint (decremented substrate_example demand_B [1, 2, 3, 5] (length (path demand_B) - 1)
                        ! nat ([1, 2, 3, 5] ! i - 1) ! nat ([1, 2, 3, 5] ! Suc i - 1))
                 = sint (substrate_example ! nat ([1, 2, 3, 5] ! i - 1) ! nat ([1, 2, 3, 5] ! Suc i - 1))
                     - bandwidth demand_B ! i"
    by blast+
  from lc have c1: "arc_cell substrate_example demand_B [1, 2, 3, 5] 1 = Inr (1, 2, 6)"
    unfolding kB bB by (simp add: three)
  from le have e1: "sint (decremented substrate_example demand_B [1, 2, 3, 5] 3 ! 1 ! 2) = 4"
    unfolding kB bB using cap by (simp add: three)
  have t: "substrate_network starved = Some residual_example"
    by (simp add: starved_def)
  have r0: "arc_resolves residual_example demand_A [1, 2, 3, 5] 0"
    and r1: "arc_resolves residual_example demand_A [1, 2, 3, 5] 1"
    and r2: "arc_resolves residual_example demand_A [1, 2, 3, 5] 2"
    and n1: "\<not> arc_fits residual_example demand_A [1, 2, 3, 5] 1"
    by code_simp+
  have res: "\<forall>i<length (path demand_A) - 1. arc_resolves residual_example demand_A [1, 2, 3, 5] i"
    unfolding kA using r0 r1 r2 by (simp add: three)
  have bad: "\<exists>i<length (path demand_A) - 1. \<not> arc_fits residual_example demand_A [1, 2, 3, 5] i"
    unfolding kA using n1 by (intro exI [of _ 1]) simp
  have ko: "allocate_demand starved demand_A [1, 2, 3, 5] = (Inr False, starved)"
    using allocate_demand_contract [of starved demand_A "[1, 2, 3, 5]" residual_example 0] t res bad
    by blast
  have u: "substrate_network three_nodes_set = Some three_nodes"
    by (simp add: three_nodes_set_def set_substrate_network_def)
  have kO: "length (path overflow_demand) - 1 = 2"
    by (simp add: overflow_demand_def)
  have g0: "arc_fits three_nodes overflow_demand [1, 2, 3] 0"
    and g1: "arc_fits three_nodes overflow_demand [1, 2, 3] 1"
    by code_simp+
  have b0: "- (2 ^ 63) \<le> bandwidth overflow_demand ! 0"
    and b1: "bandwidth overflow_demand ! 1 < - (2 ^ 63)"
    by (simp_all add: overflow_demand_def)
  have allfit: "\<forall>i<length (path overflow_demand) - 1. arc_fits three_nodes overflow_demand [1, 2, 3] i"
    unfolding kO using g0 g1 by (simp add: two)
  have before: "\<forall>i<1. - (2 ^ 63) \<le> bandwidth overflow_demand ! i"
    using b0 by simp
  have part: "decremented three_nodes overflow_demand [1, 2, 3] 1 = [[0, 4, 0], [0, 0, 5], [0, 0, 0]]"
    by code_simp
  have ov: "allocate_demand three_nodes_set overflow_demand [1, 2, 3] =
     (Inl OverflowError,
      three_nodes_set\<lparr>substrate_network := Some [[0, 4, 0], [0, 0, 5], [0, 0, 0]]\<rparr>)"
    using allocate_demand_contract [of three_nodes_set overflow_demand "[1, 2, 3]" three_nodes 1]
      u allfit b1 before kO
    by (simp only: part) simp
  show ?thesis
    using s kB bB f0 f1 f2 ok shape di lab c1 cap e1 t kA r0 r1 r2 n1 ko u kO g0 g1 b0 b1 ov
    by blast
qed

subsection \<open>\<open>permutations\<close>\<close>

lemma set_product_lists_replicate:
  "set (product_lists (replicate r xs)) = {ys. length ys = r \<and> set ys \<subseteq> set xs}"
proof (induction r)
  case 0
  show ?case by auto
next
  case (Suc r)
  show ?case
  proof (rule set_eqI)
    fix ys
    show "ys \<in> set (product_lists (replicate (Suc r) xs))
            \<longleftrightarrow> ys \<in> {ys. length ys = Suc r \<and> set ys \<subseteq> set xs}"
      using Suc.IH by (cases ys) auto
  qed
qed

lemma lex_less_Cons:
  "lex_less (x # a) (y # b) \<longleftrightarrow> x < y \<or> (x = y \<and> lex_less a b)"
  by (simp add: lex_less_def)

lemma sorted_wrt_prepend_blocks:
  assumes "sorted_wrt lex_less L" and "sorted_wrt (<) xs"
  shows "sorted_wrt lex_less (concat (map (\<lambda>x. map (Cons x) L) xs))"
  using assms(2)
proof (induction xs)
  case Nil
  show ?case by simp
next
  case (Cons x xs)
  have block: "sorted_wrt lex_less (map (Cons x) L)"
    using assms(1) by (simp add: sorted_wrt_map lex_less_Cons)
  from Cons have rest: "sorted_wrt lex_less (concat (map (\<lambda>x. map (Cons x) L) xs))"
    and above: "\<forall>y\<in>set xs. x < y"
    by simp_all
  from above have "\<forall>a\<in>set (map (Cons x) L). \<forall>b\<in>set (concat (map (\<lambda>x. map (Cons x) L) xs)).
          lex_less a b"
    by (auto simp: lex_less_Cons)
  with block rest show ?case
    by (simp add: sorted_wrt_append)
qed

lemma sorted_product_lists_replicate:
  assumes "sorted_wrt (<) xs"
  shows "sorted_wrt lex_less (product_lists (replicate r xs))"
proof (induction r)
  case 0
  show ?case by simp
next
  case (Suc r)
  then show ?case
    using sorted_wrt_prepend_blocks [OF Suc.IH assms] by simp
qed

lemma lex_less_map:
  assumes "lex_less a b"
    and "\<And>x y. x \<in> set a \<Longrightarrow> y \<in> set b \<Longrightarrow> x < y \<Longrightarrow> f x < f y"
  shows "lex_less (map f a) (map f b)"
  using assms
proof (induction a arbitrary: b)
  case Nil
  then show ?case by (cases b) (simp_all add: lex_less_def)
next
  case (Cons x a)
  from Cons.prems(1) obtain y b' where b: "b = y # b'"
    by (cases b) (simp_all add: lex_less_def)
  from Cons.prems(1) b have "x < y \<or> (x = y \<and> lex_less a b')"
    by (simp add: lex_less_Cons)
  then show ?case
  proof
    assume "x < y"
    then have "f x < f y" using Cons.prems(2) b by simp
    then show ?thesis by (simp add: b lex_less_Cons)
  next
    assume h: "x = y \<and> lex_less a b'"
    then have "lex_less (map f a) (map f b')"
      using Cons.IH [of b'] Cons.prems(2) b by simp
    with h show ?thesis by (simp add: b lex_less_Cons)
  qed
qed

lemma permutations_sorted:
  assumes "sorted_wrt (<) pool"
  shows "sorted_wrt lex_less (permutations pool r)"
proof -
  let ?L = "filter distinct (product_lists (replicate r [0..<length pool]))"
  have s: "sorted_wrt lex_less ?L"
    by (intro sorted_wrt_filter sorted_product_lists_replicate) simp
  have "sorted_wrt (\<lambda>a b. lex_less (map ((!) pool) a) (map ((!) pool) b)) ?L"
  proof (rule sorted_wrt_mono_rel [OF _ s])
    fix a b assume a: "a \<in> set ?L" and b: "b \<in> set ?L" and l: "lex_less a b"
    from a b have ra: "set a \<subseteq> {0..<length pool}" and rb: "set b \<subseteq> {0..<length pool}"
      by (auto simp: set_product_lists_replicate)
    show "lex_less (map ((!) pool) a) (map ((!) pool) b)"
    proof (rule lex_less_map [OF l])
      fix x y assume "x \<in> set a" "y \<in> set b" "x < y"
      with rb have "x < y" "y < length pool" by auto
      then show "pool ! x < pool ! y"
        using assms by (simp add: sorted_wrt_nth_less)
    qed
  qed
  then show ?thesis
    by (simp add: permutations_def sorted_wrt_map)
qed

lemma indices_of:
  assumes "set ys \<subseteq> set pool"
  shows "\<exists>idx. length idx = length ys \<and> set idx \<subseteq> {0..<length pool} \<and> map ((!) pool) idx = ys"
  using assms
proof (induction ys)
  case Nil
  show ?case by simp
next
  case (Cons y ys)
  then obtain idx where i: "length idx = length ys" "set idx \<subseteq> {0..<length pool}"
      "map ((!) pool) idx = ys"
    by auto
  from Cons.prems obtain k where k: "k < length pool" "pool ! k = y"
    by (auto simp: in_set_conv_nth)
  show ?case
    by (rule exI [of _ "k # idx"]) (use i k in simp)
qed

lemma set_permutations:
  assumes "distinct pool"
  shows "set (permutations pool r) = {ys. length ys = r \<and> distinct ys \<and> set ys \<subseteq> set pool}"
proof (rule set_eqI, rule iffI)
  fix ys assume "ys \<in> set (permutations pool r)"
  then obtain idx where idx: "ys = map ((!) pool) idx" "distinct idx" "length idx = r"
      "set idx \<subseteq> {0..<length pool}"
    by (auto simp: permutations_def set_product_lists_replicate)
  have "inj_on ((!) pool) (set idx)"
  proof (rule inj_onI)
    fix x y assume "x \<in> set idx" "y \<in> set idx" "pool ! x = pool ! y"
    with idx(4) have "x < length pool" "y < length pool" "pool ! x = pool ! y" by auto
    with assms show "x = y" by (simp add: nth_eq_iff_index_eq)
  qed
  with idx have "distinct ys" by (simp add: distinct_map)
  moreover from idx have "set ys \<subseteq> set pool" by auto
  ultimately show "ys \<in> {ys. length ys = r \<and> distinct ys \<and> set ys \<subseteq> set pool}"
    using idx by simp
next
  fix ys assume "ys \<in> {ys. length ys = r \<and> distinct ys \<and> set ys \<subseteq> set pool}"
  then have ys: "length ys = r" "distinct ys" "set ys \<subseteq> set pool" by simp_all
  from indices_of [OF ys(3)] obtain idx where idx: "length idx = length ys"
      "set idx \<subseteq> {0..<length pool}" "map ((!) pool) idx = ys"
    by blast
  from idx(3) ys(2) have "distinct idx"
    by (metis distinct_map)
  with idx ys(1) have "idx \<in> set (filter distinct (product_lists (replicate r [0..<length pool])))"
    by (simp add: set_product_lists_replicate)
  then have "map ((!) pool) idx \<in> set (permutations pool r)"
    unfolding permutations_def by (simp only: set_map image_eqI)
  with idx(3) show "ys \<in> set (permutations pool r)" by simp
qed

subsection \<open>\<open>find_all_possible_allocations\<close>\<close>

lemma filter_mappings_total:
  assumes "\<forall>m\<in>set ms. \<exists>b. bandwidth_check net d m [0..<length (path d) - 1] = Inr b"
  shows "filter_mappings net d acc ms =
           Inr (acc @ filter (\<lambda>m. bandwidth_check net d m [0..<length (path d) - 1] = Inr True) ms)"
  using assms
proof (induction ms arbitrary: acc)
  case Nil
  show ?case by simp
next
  case (Cons m ms)
  from Cons.prems obtain b where b: "bandwidth_check net d m [0..<length (path d) - 1] = Inr b"
    by auto
  from Cons.prems have "\<forall>m\<in>set ms. \<exists>b. bandwidth_check net d m [0..<length (path d) - 1] = Inr b"
    by simp
  from Cons.IH [OF this] b show ?case
    by (cases b) simp_all
qed

lemma filter_mappings_subset:
  "filter_mappings net d acc ms = Inr res \<Longrightarrow> set res \<subseteq> set acc \<union> set ms"
proof (induction ms arbitrary: acc)
  case Nil
  then show ?case by simp
next
  case (Cons m ms)
  show ?case
  proof (cases "bandwidth_check net d m [0..<length (path d) - 1]")
    case (Inl e)
    with Cons.prems show ?thesis by simp
  next
    case (Inr b)
    with Cons.prems have "filter_mappings net d (if b then acc @ [m] else acc) ms = Inr res"
      by simp
    from Cons.IH [OF this] show ?thesis
      by (cases b) auto
  qed
qed

lemma bandwidth_check_resolved:
  assumes "\<forall>i\<in>set is. arc_resolves m d mapping i"
  shows "bandwidth_check (Some m) d mapping is = Inr (\<forall>i\<in>set is. arc_fits m d mapping i)"
proof (cases "\<forall>i\<in>set is. arc_fits m d mapping i")
  case True
  then show ?thesis by (simp add: bandwidth_check_True_iff)
next
  case False
  then show ?thesis
    using bandwidth_check_False [OF assms] by simp
qed

lemma labels_facts:
  "set (map int [1..<n + 1]) = {1..int n}" "sorted_wrt (<) (map int [1..<n + 1])"
  "distinct (map int [1..<n + 1])"
proof -
  show "set (map int [1..<n + 1]) = {1..int n}"
  proof (rule set_eqI)
    fix x show "x \<in> set (map int [1..<n + 1]) \<longleftrightarrow> x \<in> {1..int n}"
    proof
      assume "x \<in> set (map int [1..<n + 1])"
      then show "x \<in> {1..int n}" by auto
    next
      assume "x \<in> {1..int n}"
      then have "nat x \<in> set [1..<n + 1]" "int (nat x) = x" by auto
      then show "x \<in> set (map int [1..<n + 1])"
        by (metis image_eqI set_map)
    qed
  qed
  show "sorted_wrt (<) (map int [1..<n + 1])"
    by (simp add: sorted_wrt_map del: upt_Suc)
  show "distinct (map int [1..<n + 1])"
    by (simp add: distinct_map del: upt_Suc)
qed

text \<open>
  Claim C5. On a square substrate of \<open>N\<close> nodes and for a demand that has a requirement
  for each of its \<open>k - 1\<close> arcs, \<open>find_all_possible_allocations\<close> returns a list that
  holds exactly the sequences of \<open>k\<close> pairwise distinct labels from \<open>1..N\<close> whose every
  consecutive arc has, in the current residual matrix, at least the capacity
  \<open>bandwidth[i]\<close>; the list is strictly ascending in the lexicographic order (so no
  mapping occurs twice); and one round of the processing loop rejects the demand when
  the list is empty and otherwise hands the first element of the list to
  \<open>allocate_demand\<close>, which commits it and makes the demand accepted when no
  requirement lies below \<open>- 2^63\<close>.
\<close>

theorem find_all_possible_allocations_enumerates:
  assumes "substrate_network p = Some net"
    and "\<forall>row\<in>set net. length row = length net"
    and "length (path d) - 1 \<le> length (bandwidth d)"
  shows "\<exists>ms. find_all_possible_allocations p d = Inr ms \<and>
           set ms = {m. length m = length (path d) \<and> distinct m \<and>
                        set m \<subseteq> {1..int (length net)} \<and>
                        (\<forall>i<length (path d) - 1.
                           bandwidth d ! i
                             \<le> sint (net ! nat (m ! i - 1) ! nat (m ! Suc i - 1)))} \<and>
           sorted_wrt lex_less ms \<and>
           (ms = [] \<longrightarrow>
              process_loop p [d] = (None, p\<lparr>rejected_demands := rejected_demands p @ [d]\<rparr>)) \<and>
           (ms \<noteq> [] \<longrightarrow>
              process_loop p [d] =
                (case allocate_demand p d (hd ms) of
                   (Inl e, p') \<Rightarrow> (Some e, p')
                 | (Inr True, p') \<Rightarrow>
                     (None, p'\<lparr>accepted_demands := accepted_demands p' @ [d]\<rparr>)
                 | (Inr False, p') \<Rightarrow>
                     (None, p'\<lparr>rejected_demands := rejected_demands p' @ [d]\<rparr>)) \<and>
              fst (allocate_demand p d (hd ms)) \<noteq> Inr False) \<and>
           (ms \<noteq> [] \<and> (\<forall>i<length (path d) - 1. - (2 ^ 63) \<le> bandwidth d ! i) \<longrightarrow>
              process_loop p [d] =
                (None, p\<lparr>substrate_network :=
                            Some (decremented net d (hd ms) (length (path d) - 1)),
                          allocations := (allocations p)(demand_id d \<mapsto> hd ms),
                          accepted_demands := accepted_demands p @ [d]\<rparr>))"
proof -
  let ?k = "length (path d)"
  let ?idx = "[0..<?k - 1]"
  let ?labels = "map int [1..<length net + 1]"
  let ?perms = "permutations ?labels ?k"
  let ?ok = "\<lambda>m. bandwidth_check (Some net) d m ?idx = Inr True"
  let ?ms = "filter ?ok ?perms"
  have perms: "set ?perms = {m. length m = ?k \<and> distinct m \<and> set m \<subseteq> {1..int (length net)}}"
    using set_permutations [OF labels_facts(3), of "length net" ?k]
    by (simp only: labels_facts(1))
  have cell: "arc_cell net d m i = Inr (nat (m ! i - 1), nat (m ! Suc i - 1), bandwidth d ! i)"
    if "m \<in> set ?perms" "i < ?k - 1" for m i
    using that assms(2,3) perms by (intro arc_cell_labels) auto
  have fits: "arc_fits net d m i
                \<longleftrightarrow> bandwidth d ! i \<le> sint (net ! nat (m ! i - 1) ! nat (m ! Suc i - 1))"
    if "m \<in> set ?perms" "i < ?k - 1" for m i
    by (simp add: arc_fits_def cell [OF that])
  have res: "\<forall>i\<in>set ?idx. arc_resolves net d m i" if "m \<in> set ?perms" for m
    using cell [OF that] by (simp add: arc_resolves_def)
  have chk: "bandwidth_check (Some net) d m ?idx = Inr (\<forall>i\<in>set ?idx. arc_fits net d m i)"
    if "m \<in> set ?perms" for m
    by (rule bandwidth_check_resolved [OF res [OF that]])
  have ok: "?ok m \<longleftrightarrow> (\<forall>i<?k - 1. bandwidth d ! i
                                     \<le> sint (net ! nat (m ! i - 1) ! nat (m ! Suc i - 1)))"
    if "m \<in> set ?perms" for m
    using chk [OF that] fits [OF that] by auto
  have "\<forall>m\<in>set ?perms. \<exists>b. bandwidth_check (Some net) d m ?idx = Inr b"
    using chk by blast
  from filter_mappings_total [OF this, of "[]"]
  have found: "find_all_possible_allocations p d = Inr ?ms"
    by (simp add: find_all_possible_allocations_def Let_def assms(1))
  have members: "set ?ms = {m. length m = ?k \<and> distinct m \<and> set m \<subseteq> {1..int (length net)} \<and>
                        (\<forall>i<?k - 1. bandwidth d ! i
                                      \<le> sint (net ! nat (m ! i - 1) ! nat (m ! Suc i - 1)))}"
    using ok perms by auto
  have ordered: "sorted_wrt lex_less ?ms"
    by (intro sorted_wrt_filter permutations_sorted labels_facts(2))
  have none: "process_loop p [d] = (None, p\<lparr>rejected_demands := rejected_demands p @ [d]\<rparr>)"
    if "?ms = []"
    using found that by simp
  have hdfits: "\<forall>i<?k - 1. arc_fits net d (hd ?ms) i" if ne: "?ms \<noteq> []"
  proof -
    from ne have "hd ?ms \<in> set ?ms" by (rule hd_in_set)
    then have "?ok (hd ?ms)" by simp
    then show ?thesis by (simp add: bandwidth_check_True_iff)
  qed
  have handed: "process_loop p [d] =
                (case allocate_demand p d (hd ?ms) of
                   (Inl e, p') \<Rightarrow> (Some e, p')
                 | (Inr True, p') \<Rightarrow>
                     (None, p'\<lparr>accepted_demands := accepted_demands p' @ [d]\<rparr>)
                 | (Inr False, p') \<Rightarrow>
                     (None, p'\<lparr>rejected_demands := rejected_demands p' @ [d]\<rparr>)) \<and>
              fst (allocate_demand p d (hd ?ms)) \<noteq> Inr False"
    if ne: "?ms \<noteq> []"
  proof
    from ne obtain m rest where split: "?ms = m # rest"
      by (cases ?ms) auto
    with found show "process_loop p [d] =
                (case allocate_demand p d (hd ?ms) of
                   (Inl e, p') \<Rightarrow> (Some e, p')
                 | (Inr True, p') \<Rightarrow>
                     (None, p'\<lparr>accepted_demands := accepted_demands p' @ [d]\<rparr>)
                 | (Inr False, p') \<Rightarrow>
                     (None, p'\<lparr>rejected_demands := rejected_demands p' @ [d]\<rparr>))"
      by (auto split: prod.splits sum.splits bool.splits)
    have "bandwidth_check (Some net) d (hd ?ms) ?idx = Inr True"
      using hdfits [OF ne] by (simp add: bandwidth_check_True_iff)
    then show "fst (allocate_demand p d (hd ?ms)) \<noteq> Inr False"
      using assms(1)
      by (auto simp: allocate_demand_def Let_def split: prod.splits option.splits)
  qed
  have first: "process_loop p [d] =
                (None, p\<lparr>substrate_network := Some (decremented net d (hd ?ms) (?k - 1)),
                          allocations := (allocations p)(demand_id d \<mapsto> hd ?ms),
                          accepted_demands := accepted_demands p @ [d]\<rparr>)"
    if ne: "?ms \<noteq> []" and rng: "\<forall>i<?k - 1. - (2 ^ 63) \<le> bandwidth d ! i"
  proof -
    from ne obtain m rest where split: "?ms = m # rest"
      by (cases ?ms) auto
    have "\<forall>i<?k - 1. arc_fits net d m i \<and> - (2 ^ 63) \<le> bandwidth d ! i"
      using hdfits [OF ne] rng split by simp
    from allocate_demand_success [OF assms(1) this] found split show ?thesis
      by simp
  qed
  show ?thesis
    using found members ordered none handed first by blast
qed

theorem find_all_possible_allocations_enumerates_witness:
  "substrate_network scenario = Some substrate_example \<and>
   map length substrate_example = [5, 5, 5, 5, 5] \<and>
   length (path demand_B) - 1 \<le> length (bandwidth demand_B) \<and>
   bandwidth demand_B = [4, 6, 2] \<and>
   find_all_possible_allocations scenario demand_B = Inr [[1, 2, 3, 5], [1, 2, 4, 5]] \<and>
   set [[1, 2, 3, 5], [1, 2, 4, 5]] =
     {m. length m = length (path demand_B) \<and> distinct m \<and>
         set m \<subseteq> {1..int (length substrate_example)} \<and>
         (\<forall>i<length (path demand_B) - 1.
            bandwidth demand_B ! i
              \<le> sint (substrate_example ! nat (m ! i - 1) ! nat (m ! Suc i - 1)))} \<and>
   sorted_wrt lex_less [[1, 2, 3, 5], [1, 2, 4, 5 :: int]] \<and>
   fst (allocate_demand scenario demand_B [1, 2, 3, 5]) \<noteq> Inr False \<and>
   process_loop scenario [demand_B] =
     (None, scenario\<lparr>substrate_network :=
                        Some (decremented substrate_example demand_B [1, 2, 3, 5]
                                (length (path demand_B) - 1)),
                      allocations := (allocations scenario)(demand_id demand_B \<mapsto> [1, 2, 3, 5]),
                      accepted_demands := accepted_demands scenario @ [demand_B]\<rparr>) \<and>
   substrate_network starved = Some residual_example \<and>
   map length residual_example = [5, 5, 5, 5, 5] \<and>
   length (path demand_A) - 1 \<le> length (bandwidth demand_A) \<and>
   find_all_possible_allocations starved demand_A = Inr [] \<and>
   process_loop starved [demand_A] =
     (None, starved\<lparr>rejected_demands := rejected_demands starved @ [demand_A]\<rparr>)"
proof -
  have three: "i < 3 \<longleftrightarrow> i = 0 \<or> i = 1 \<or> i = 2" for i :: nat
    by auto
  have s: "substrate_network scenario = Some substrate_example"
    by (simp add: scenario_def add_demand_def set_substrate_network_def)
  have shape: "map length substrate_example = [5, 5, 5, 5, 5]"
    by (simp add: substrate_example_def)
  have sq: "\<forall>row\<in>set substrate_example. length row = length substrate_example"
    by (simp add: substrate_example_def)
  have len: "length (path demand_B) - 1 \<le> length (bandwidth demand_B)"
    and bB: "bandwidth demand_B = [4, 6, 2]" and kB: "length (path demand_B) - 1 = 3"
    by (simp_all add: demand_B_def)
  have rng: "\<forall>i<length (path demand_B) - 1. - (2 ^ 63) \<le> bandwidth demand_B ! i"
    unfolding kB bB by (simp add: three)
  have found: "find_all_possible_allocations scenario demand_B = Inr [[1, 2, 3, 5], [1, 2, 4, 5]]"
    using find_all_substrate [of scenario "init\<lparr>substrate_network := Some substrate_example\<rparr>" demand_B]
      s scenario_find_B by simp
  from find_all_possible_allocations_enumerates [OF s sq len] found rng
  have B: "set [[1, 2, 3, 5], [1, 2, 4, 5]] =
     {m. length m = length (path demand_B) \<and> distinct m \<and>
         set m \<subseteq> {1..int (length substrate_example)} \<and>
         (\<forall>i<length (path demand_B) - 1.
            bandwidth demand_B ! i
              \<le> sint (substrate_example ! nat (m ! i - 1) ! nat (m ! Suc i - 1)))}"
    "sorted_wrt lex_less [[1, 2, 3, 5], [1, 2, 4, 5 :: int]]"
    "fst (allocate_demand scenario demand_B [1, 2, 3, 5]) \<noteq> Inr False"
    "process_loop scenario [demand_B] =
     (None, scenario\<lparr>substrate_network :=
                        Some (decremented substrate_example demand_B [1, 2, 3, 5]
                                (length (path demand_B) - 1)),
                      allocations := (allocations scenario)(demand_id demand_B \<mapsto> [1, 2, 3, 5]),
                      accepted_demands := accepted_demands scenario @ [demand_B]\<rparr>)"
    by auto
  have s': "substrate_network starved = Some residual_example"
    by (simp add: starved_def)
  have shape': "map length residual_example = [5, 5, 5, 5, 5]"
    by (simp add: residual_example_def)
  have sq': "\<forall>row\<in>set residual_example. length row = length residual_example"
    by (simp add: residual_example_def)
  have len': "length (path demand_A) - 1 \<le> length (bandwidth demand_A)"
    by (simp add: demand_A_def)
  have found': "find_all_possible_allocations starved demand_A = Inr []"
    unfolding starved_def by (rule scenario_find_A)
  from find_all_possible_allocations_enumerates [OF s' sq' len'] found'
  have A: "process_loop starved [demand_A] =
     (None, starved\<lparr>rejected_demands := rejected_demands starved @ [demand_A]\<rparr>)"
    by auto
  from s shape len bB found B s' shape' len' found' A show ?thesis
    by blast
qed

subsection \<open>The capacity invariant\<close>

lemma within_capacity_nth:
  "within_capacity a orig \<longleftrightarrow>
     length a = length orig \<and>
     (\<forall>r<length orig. length (a ! r) = length (orig ! r) \<and>
        (\<forall>c<length (orig ! r). 0 \<le> sint (a ! r ! c) \<and> sint (a ! r ! c) \<le> sint (orig ! r ! c)))"
  unfolding within_capacity_def list_all2_conv_all_nth by auto

lemma sum_list_single_hit:
  fixes f :: "nat \<Rightarrow> int"
  assumes "distinct is"
    and "\<forall>i\<in>set is. \<forall>j\<in>set is. f i \<noteq> 0 \<longrightarrow> f j \<noteq> 0 \<longrightarrow> i = j"
    and "\<forall>i\<in>set is. 0 \<le> f i \<and> f i \<le> B" and "0 \<le> B"
  shows "0 \<le> sum_list (map f is) \<and> sum_list (map f is) \<le> B"
  using assms
proof (induction "is")
  case Nil
  then show ?case by simp
next
  case (Cons i rest)
  then have ih: "0 \<le> sum_list (map f rest) \<and> sum_list (map f rest) \<le> B"
    by simp
  show ?case
  proof (cases "f i = 0")
    case True
    with ih show ?thesis by simp
  next
    case False
    have z: "f j = 0" if "j \<in> set rest" for j
    proof (rule ccontr)
      assume "f j \<noteq> 0"
      with False Cons.prems(2) that have "i = j" by simp
      with Cons.prems(1) that show False by simp
    qed
    have "map f rest = map (\<lambda>_. 0) rest"
      by (rule map_cong [OF refl]) (rule z)
    then have "sum_list (map f rest) = sum_list (map (\<lambda>_. 0 :: int) rest)"
      by (rule arg_cong)
    then have "sum_list (map f rest) = 0"
      by (simp only: sum_list_0)
    with Cons.prems(3) show ?thesis by simp
  qed
qed

lemma arc_cell_label_source:
  assumes "arc_cell net d mapping i = Inr (r, c, q)" and "set mapping \<subseteq> {1..int (length net)}"
  shows "Suc i < length mapping \<and> i < length (bandwidth d) \<and> q = bandwidth d ! i \<and>
         r = nat (mapping ! i - 1)"
proof -
  from assms(1) have i: "Suc i < length mapping" "i < length (bandwidth d)"
    by (auto simp: arc_cell_def arc_def py_index_def split: sum.splits if_splits)
  then have arc: "arc d mapping i = Inr (mapping ! i - 1, mapping ! Suc i - 1, bandwidth d ! i)"
    by (simp add: arc_def py_index_def)
  from i assms(2) have "1 \<le> mapping ! i"
    by (auto simp: subset_iff)
  then have "np_axis (length net) (mapping ! i - 1) = Inr r' \<Longrightarrow> r' = nat (mapping ! i - 1)" for r'
    by (auto simp: np_axis_def split: if_splits)
  with assms(1) arc have "q = bandwidth d ! i" "r = nat (mapping ! i - 1)"
    by (auto simp: arc_cell_def np_locate_def split: sum.splits)
  with i show ?thesis by simp
qed

lemma decremented_within:
  assumes inv: "within_capacity net orig"
    and fits: "\<forall>i<length (path d) - 1. arc_fits net d mapping i"
    and dist: "distinct mapping"
    and labels: "set mapping \<subseteq> {1..int (length net)}"
    and nonneg: "list_all (\<lambda>b. 0 \<le> b) (bandwidth d)"
  shows "within_capacity (decremented net d mapping (length (path d) - 1)) orig"
proof -
  let ?n = "length (path d) - 1"
  let ?is = "[0..<?n]"
  from inv have len: "length net = length orig"
    and rows: "\<And>r. r < length orig \<Longrightarrow> length (net ! r) = length (orig ! r)"
    and cells: "\<And>r c. r < length orig \<Longrightarrow> c < length (orig ! r)
                  \<Longrightarrow> 0 \<le> sint (net ! r ! c) \<and> sint (net ! r ! c) \<le> sint (orig ! r ! c)"
    by (simp_all add: within_capacity_nth)
  have bound: "0 \<le> consumed net d mapping ?n r c \<and>
               consumed net d mapping ?n r c \<le> sint (net ! r ! c)"
    if r: "r < length orig" and c: "c < length (orig ! r)" for r c
    unfolding consumed_def
  proof (rule sum_list_single_hit)
    show "distinct ?is" by simp
    show "0 \<le> sint (net ! r ! c)" using cells [OF r c] by simp
    show "\<forall>i\<in>set ?is. \<forall>j\<in>set ?is.
            taken net d mapping r c i \<noteq> 0 \<longrightarrow> taken net d mapping r c j \<noteq> 0 \<longrightarrow> i = j"
    proof (intro ballI impI)
      fix i j
      assume "taken net d mapping r c i \<noteq> 0" "taken net d mapping r c j \<noteq> 0"
      then obtain q q' where ci: "arc_cell net d mapping i = Inr (r, c, q)"
        and cj: "arc_cell net d mapping j = Inr (r, c, q')"
        by (auto simp: taken_def split: sum.splits if_splits)
      have i: "i < length mapping" "r = nat (mapping ! i - 1)"
        using arc_cell_label_source [OF ci labels] by simp_all
      have j: "j < length mapping" "r = nat (mapping ! j - 1)"
        using arc_cell_label_source [OF cj labels] by simp_all
      from i(1) have "mapping ! i \<in> set mapping" by (rule nth_mem)
      with labels have "mapping ! i \<in> {1..int (length net)}" by (rule subsetD)
      then have li: "1 \<le> mapping ! i" by simp
      from j(1) have "mapping ! j \<in> set mapping" by (rule nth_mem)
      with labels have "mapping ! j \<in> {1..int (length net)}" by (rule subsetD)
      then have "1 \<le> mapping ! j" by simp
      with li i j have "mapping ! i = mapping ! j" "i < length mapping" "j < length mapping"
        by auto
      with dist show "i = j"
        by (simp add: nth_eq_iff_index_eq)
    qed
    show "\<forall>i\<in>set ?is. 0 \<le> taken net d mapping r c i \<and>
                        taken net d mapping r c i \<le> sint (net ! r ! c)"
    proof
      fix i assume "i \<in> set ?is"
      then have fit: "arc_fits net d mapping i" using fits by simp
      then obtain r' c' q where cell: "arc_cell net d mapping i = Inr (r', c', q)"
        and enough: "q \<le> sint (net ! r' ! c')"
        by (auto simp: arc_fits_def split: sum.splits)
      from arc_cell_label_source [OF cell labels] nonneg have "0 \<le> q"
        by (simp add: list_all_length)
      with cell enough cells [OF r c]
      show "0 \<le> taken net d mapping r c i \<and> taken net d mapping r c i \<le> sint (net ! r ! c)"
        by (auto simp: taken_def)
    qed
  qed
  show ?thesis
    unfolding within_capacity_nth
  proof (intro conjI allI impI)
    show "length (decremented net d mapping ?n) = length orig"
      by (simp add: decremented_shape len)
  next
    fix r assume r: "r < length orig"
    then show "length (decremented net d mapping ?n ! r) = length (orig ! r)"
      by (simp add: decremented_shape len rows)
  next
    fix r c assume r: "r < length orig" and c: "c < length (orig ! r)"
    then have "decremented net d mapping ?n ! r ! c
                 = net ! r ! c - word_of_int (consumed net d mapping ?n r c)"
      by (simp add: decremented_nth len rows)
    moreover have "sint (net ! r ! c - word_of_int (consumed net d mapping ?n r c))
                     = sint (net ! r ! c) - consumed net d mapping ?n r c"
      using bound [OF r c] by (intro sint_decrement) simp_all
    ultimately have "sint (decremented net d mapping ?n ! r ! c)
                       = sint (net ! r ! c) - consumed net d mapping ?n r c"
      by simp
    with bound [OF r c] cells [OF r c]
    show "0 \<le> sint (decremented net d mapping ?n ! r ! c)"
      "sint (decremented net d mapping ?n ! r ! c) \<le> sint (orig ! r ! c)"
      by simp_all
  qed
qed

lemma allocate_demand_invariant:
  assumes inv: "capacity_invariant p" and net: "substrate_network p = Some net"
    and dist: "distinct mapping" and labels: "set mapping \<subseteq> {1..int (length net)}"
    and nonneg: "list_all (\<lambda>b. 0 \<le> b) (bandwidth d)"
  shows "capacity_invariant (snd (allocate_demand p d mapping))"
proof (cases "\<forall>i<length (path d) - 1. arc_fits net d mapping i")
  case False
  then show ?thesis
    using allocate_demand_unfit [OF net, of d mapping] inv by simp
next
  case True
  have "- (2 ^ 63) \<le> bandwidth d ! i" if "i < length (path d) - 1" for i
  proof -
    from True that have "arc_fits net d mapping i" by simp
    then obtain r c q where cell: "arc_cell net d mapping i = Inr (r, c, q)"
      by (auto simp: arc_fits_def split: sum.splits)
    from arc_cell_label_source [OF cell labels] nonneg have "0 \<le> bandwidth d ! i"
      by (simp add: list_all_length)
    then show ?thesis by simp
  qed
  with True have ok: "\<forall>i<length (path d) - 1.
      arc_fits net d mapping i \<and> - (2 ^ 63) \<le> bandwidth d ! i"
    by simp
  from inv net obtain orig where orig: "original_substrate p = Some (Some orig)"
    and w: "within_capacity net orig"
    by (auto simp: capacity_invariant_def split: option.splits)
  have "within_capacity (decremented net d mapping (length (path d) - 1)) orig"
    by (rule decremented_within [OF w True dist labels nonneg])
  then show ?thesis
    by (simp add: allocate_demand_success [OF net ok] capacity_invariant_def orig)
qed

lemma find_all_members:
  assumes "find_all_possible_allocations p d = Inr ms" and "substrate_network p = Some net"
    and "m \<in> set ms"
  shows "distinct m \<and> set m \<subseteq> {1..int (length net)}"
proof -
  from assms(1,2) have "filter_mappings (Some net) d []
      (permutations (map int [1..<length net + 1]) (length (path d))) = Inr ms"
    by (simp add: find_all_possible_allocations_def Let_def)
  from filter_mappings_subset [OF this] assms(3)
  have "m \<in> set (permutations (map int [1..<length net + 1]) (length (path d)))"
    by auto
  moreover have "set (permutations (map int [1..<length net + 1]) (length (path d))) =
      {ys. length ys = length (path d) \<and> distinct ys \<and> set ys \<subseteq> {1..int (length net)}}"
    using set_permutations [OF labels_facts(3), of "length net" "length (path d)"]
    by (simp only: labels_facts(1))
  ultimately show ?thesis
    by blast
qed

lemma capacity_invariant_lists:
  "capacity_invariant (p\<lparr>accepted_demands := a\<rparr>) = capacity_invariant p"
  "capacity_invariant (p\<lparr>rejected_demands := b\<rparr>) = capacity_invariant p"
  "capacity_invariant (p\<lparr>demands := c\<rparr>) = capacity_invariant p"
  by (simp_all add: capacity_invariant_def cong: option.case_cong)

lemma process_loop_invariant:
  assumes "capacity_invariant p" and "list_all (\<lambda>d. list_all (\<lambda>b. 0 \<le> b) (bandwidth d)) ds"
  shows "capacity_invariant (snd (process_loop p ds))"
  using assms
proof (induction ds arbitrary: p)
  case Nil
  then show ?case by simp
next
  case (Cons d ds)
  from Cons.prems have nn: "list_all (\<lambda>b. 0 \<le> b) (bandwidth d)"
    and rest: "list_all (\<lambda>d. list_all (\<lambda>b. 0 \<le> b) (bandwidth d)) ds"
    by simp_all
  show ?case
  proof (cases "find_all_possible_allocations p d")
    case (Inl e)
    with Cons.prems show ?thesis by simp
  next
    case (Inr ms)
    show ?thesis
    proof (cases ms)
      case Nil
      have "capacity_invariant (p\<lparr>rejected_demands := rejected_demands p @ [d]\<rparr>)"
        using Cons.prems(1) by (simp add: capacity_invariant_lists)
      from Cons.IH [OF this rest] Inr Nil show ?thesis by simp
    next
      case (Cons m others)
      from Cons.prems(1) obtain net where net: "substrate_network p = Some net"
        by (auto simp: capacity_invariant_def split: option.splits)
      have "distinct m \<and> set m \<subseteq> {1..int (length net)}"
        using find_all_members [OF Inr net] Cons by simp
      then have step: "capacity_invariant (snd (allocate_demand p d m))"
        using allocate_demand_invariant [OF Cons.prems(1) net _ _ nn] by simp
      obtain res q where a: "allocate_demand p d m = (res, q)"
        by (cases "allocate_demand p d m")
      with step have q: "capacity_invariant q" by simp
      show ?thesis
      proof (cases res)
        case (Inl e)
        with Inr Cons a q show ?thesis by simp
      next
        case ok: (Inr b)
        have "capacity_invariant (q\<lparr>accepted_demands := accepted_demands q @ [d]\<rparr>)"
          "capacity_invariant (q\<lparr>rejected_demands := rejected_demands q @ [d]\<rparr>)"
          using q by (simp_all add: capacity_invariant_lists)
        then have "capacity_invariant (snd (process_loop (q\<lparr>accepted_demands := accepted_demands q @ [d]\<rparr>) ds))"
          "capacity_invariant (snd (process_loop (q\<lparr>rejected_demands := rejected_demands q @ [d]\<rparr>) ds))"
          using Cons.IH rest by blast+
        with Inr Cons a ok show ?thesis
          by (cases b) simp_all
      qed
    qed
  qed
qed

lemma process_all_demands_invariant:
  assumes "capacity_invariant p"
    and "list_all (\<lambda>d. list_all (\<lambda>b. 0 \<le> b) (bandwidth d)) (demands p)"
  shows "capacity_invariant (snd (process_all_demands p))"
proof -
  let ?ds = "sort_key total_bandwidth (demands p)"
  let ?p1 = "p\<lparr>demands := ?ds\<rparr>"
  have "list_all (\<lambda>d. list_all (\<lambda>b. 0 \<le> b) (bandwidth d)) ?ds"
    using assms(2) by (simp add: list_all_iff)
  moreover have "capacity_invariant ?p1"
    using assms(1) by (simp add: capacity_invariant_lists)
  ultimately have "capacity_invariant (snd (process_loop ?p1 ?ds))"
    by (rule process_loop_invariant [rotated])
  then show ?thesis
    by (auto simp: process_all_demands_def Let_def split: prod.splits option.splits)
qed

lemma within_capacity_refl:
  assumes "list_all (list_all (\<lambda>x. 0 \<le> sint x)) m"
  shows "within_capacity m m"
  using assms
  by (auto simp: within_capacity_def list_all2_conv_all_nth list_all_length)

lemma within_capacity_original:
  assumes "within_capacity a orig"
  shows "within_capacity orig orig"
  using assms
  by (fastforce simp: within_capacity_def list_all2_conv_all_nth)

theorem capacity_invariant_broken_counterexample:
  "capacity_invariant negative_demand \<and>
   substrate_network (snd (process_all_demands negative_demand)) = Some [[0, 8], [0, 0]] \<and>
   original_substrate (snd (process_all_demands negative_demand)) = Some (Some [[0, 5], [0, 0]]) \<and>
   \<not> capacity_invariant (snd (process_all_demands negative_demand))"
  by code_simp

text \<open>
  Claim C4, as the code has it. The code validates neither the matrix nor the demands,
  so the bounds hold under the conditions it leaves to the caller. A matrix without
  negative entries establishes \<open>0 \<le> residual \<le> original\<close> for every arc;
  \<open>add_demand\<close> and \<open>reset\<close> preserve it; \<open>allocate_demand\<close> preserves it for
  a mapping of pairwise distinct labels from \<open>1..N\<close> and a demand without negative
  requirements, whatever it returns; and \<open>process_all_demands\<close> preserves it when no
  stored demand has a negative requirement, also when the pass ends in an exception.
\<close>

theorem capacity_invariant_preserved:
  "(list_all (list_all (\<lambda>x. 0 \<le> sint x)) m \<longrightarrow>
      capacity_invariant (snd (set_substrate_network p m))) \<and>
   (capacity_invariant p \<longrightarrow> capacity_invariant (add_demand p did pa bw)) \<and>
   (capacity_invariant p \<longrightarrow> capacity_invariant (snd (reset p))) \<and>
   (capacity_invariant p \<and> substrate_network p = Some net \<and> distinct mapping \<and>
    set mapping \<subseteq> {1..int (length net)} \<and> list_all (\<lambda>b. 0 \<le> b) (bandwidth d) \<longrightarrow>
      capacity_invariant (snd (allocate_demand p d mapping))) \<and>
   (capacity_invariant p \<and>
    list_all (\<lambda>d. list_all (\<lambda>b. 0 \<le> b) (bandwidth d)) (demands p) \<longrightarrow>
      capacity_invariant (snd (process_all_demands p)))"
proof (intro conjI impI)
  assume "list_all (list_all (\<lambda>x. 0 \<le> sint x)) m"
  then show "capacity_invariant (snd (set_substrate_network p m))"
    by (simp add: set_substrate_network_def capacity_invariant_def within_capacity_refl)
next
  assume "capacity_invariant p"
  then show "capacity_invariant (add_demand p did pa bw)"
    by (simp add: add_demand_def capacity_invariant_lists)
next
  assume "capacity_invariant p"
  then obtain a orig where "original_substrate p = Some (Some orig)" "within_capacity a orig"
    by (auto simp: capacity_invariant_def split: option.splits)
  then show "capacity_invariant (snd (reset p))"
    using within_capacity_original [of a orig]
    by (simp add: reset_def capacity_invariant_def)
next
  assume "capacity_invariant p \<and> substrate_network p = Some net \<and> distinct mapping \<and>
    set mapping \<subseteq> {1..int (length net)} \<and> list_all (\<lambda>b. 0 \<le> b) (bandwidth d)"
  then show "capacity_invariant (snd (allocate_demand p d mapping))"
    using allocate_demand_invariant by blast
next
  assume "capacity_invariant p \<and>
    list_all (\<lambda>d. list_all (\<lambda>b. 0 \<le> b) (bandwidth d)) (demands p)"
  then show "capacity_invariant (snd (process_all_demands p))"
    using process_all_demands_invariant by blast
qed


theorem capacity_invariant_preserved_witness:
  "list_all (list_all (\<lambda>x. 0 \<le> sint x)) substrate_example \<and>
   capacity_invariant (snd (set_substrate_network scenario substrate_example)) \<and>
   capacity_invariant scenario \<and>
   capacity_invariant (add_demand scenario 3 [1, 2] [1]) \<and>
   capacity_invariant (snd (reset scenario)) \<and>
   substrate_network scenario = Some substrate_example \<and>
   distinct [1, 2, 3, 5 :: int] \<and>
   set [1, 2, 3, 5] \<subseteq> {1..int (length substrate_example)} \<and>
   list_all (\<lambda>b. 0 \<le> b) (bandwidth demand_B) \<and>
   capacity_invariant (snd (allocate_demand scenario demand_B [1, 2, 3, 5])) \<and>
   list_all (\<lambda>d. list_all (\<lambda>b. 0 \<le> b) (bandwidth d)) (demands scenario) \<and>
   capacity_invariant (snd (process_all_demands scenario))"
proof -
  have h1: "list_all (list_all (\<lambda>x. 0 \<le> sint x)) substrate_example"
    by code_simp
  have h2: "capacity_invariant scenario"
    by code_simp
  have h3: "substrate_network scenario = Some substrate_example"
    by (simp add: scenario_def add_demand_def set_substrate_network_def)
  have h4: "distinct [1, 2, 3, 5 :: int]"
    by simp
  have h5: "set [1, 2, 3, 5] \<subseteq> {1..int (length substrate_example)}"
    by (simp add: substrate_example_def)
  have h6: "list_all (\<lambda>b. 0 \<le> b) (bandwidth demand_B)"
    by (simp add: demand_B_def)
  have h7: "list_all (\<lambda>d. list_all (\<lambda>b. 0 \<le> b) (bandwidth d)) (demands scenario)"
    by (simp add: scenario_demands demand_A_def demand_B_def)
  show ?thesis
    using h1 h2 h3 h4 h5 h6 h7
      capacity_invariant_preserved [of substrate_example scenario 3 "[1, 2]" "[1]"
        substrate_example "[1, 2, 3, 5]" demand_B]
    by blast
qed

end
